theory Spec2Isabelle
  imports Main "HOL-Library.Word" "HOL-Library.Sublist" "HOL-Library.Multiset"
begin

section \<open>Errors\<close>

text \<open>
  A Go \<open>error\<close> value is \<open>nil\<close> (\<open>None\<close>) or an error. The host tells apart exactly two
  kinds: \<open>interp.ExitStatus\<close> (an unsigned 8-bit integer, found by the type assertion
  \<open>err.(interp.ExitStatus)\<close> in \<open>main\<close>) and every other error, of which only the message
  (\<open>err.Error()\<close>) is ever used.
\<close>

datatype error = ExitStatus "8 word" | Ordinary string

section \<open>The external interpreter and parser\<close>

text \<open>
  The packages \<open>mvdan.cc/sh/v3/interp\<close> and \<open>mvdan.cc/sh/v3/syntax\<close> are not code of this
  repository; they are a parameter of every definition below. \<open>'r\<close> is the state of one
  \<open>interp.Runner\<close>, \<open>'n\<close> a \<open>syntax.Node\<close> (a parsed file or a parsed statement).
  \<^item> \<open>New\<close>: \<open>interp.New(interp.StdIO(os.Stdin, os.Stdout, os.Stderr))\<close>, the state of a
    newly made runner or the message of the error;
  \<^item> \<open>Reset\<close>: \<open>r.Reset()\<close>;
  \<^item> \<open>Run\<close>: \<open>r.Run(ctx, node)\<close> from a runner state: the state it leaves, the writes it
    made to standard output, and the error it returns;
  \<^item> \<open>Exited\<close>: \<open>r.Exited()\<close>;
  \<^item> \<open>Parse\<close>: \<open>syntax.NewParser().Parse(reader, name)\<close> on the text the reader yields:
    the program, or the message of the error. The syntax package cannot build an
    \<open>interp.ExitStatus\<close> (interp imports syntax), so its errors are ordinary ones;
  \<^item> \<open>ExitText\<close>: \<open>Error()\<close> of an \<open>interp.ExitStatus\<close>.
\<close>

record ('r, 'n) shell =
  New :: "string + 'r"
  Reset :: "'r \<Rightarrow> 'r"
  Run :: "'n \<Rightarrow> 'r \<Rightarrow> 'r \<times> string list \<times> error option"
  Exited :: "'r \<Rightarrow> bool"
  Parse :: "string \<Rightarrow> string \<Rightarrow> string + 'n"
  ExitText :: "8 word \<Rightarrow> string"

fun Error :: "('r, 'n) shell \<Rightarrow> error \<Rightarrow> string" where
  "Error I (ExitStatus e) = ExitText I e"
| "Error I (Ordinary m) = m"

section \<open>The process environment and the world\<close>

text \<open>
  What the process reads: \<open>files\<close> is \<open>os.Open\<close> followed by reading the file (its text, or
  the message of the error), \<open>stdin\<close> the text of standard input, \<open>isTerminal\<close> the answer
  of \<open>terminal.IsTerminal\<close> on it. For the interactive loop, \<open>chunks\<close> is what
  \<open>parser.Interactive\<close> hands to its callback, one entry per call: the statements and the
  answer \<open>parser.Incomplete()\<close> gives during that call; \<open>readErr\<close> is the read error that
  ends the input, None when the input is simply exhausted.
\<close>

record 'n env =
  files :: "string \<Rightarrow> string + string"
  stdin :: string
  isTerminal :: bool
  chunks :: "('n list \<times> bool) list"
  readErr :: "string option"

text \<open>
  The effects of the host, in the order they happen: the calls it makes on runners
  (named by their address), on the parser, on script sources and on the standard
  streams. \<open>EvRun r n err\<close> is the call \<open>r.Run(ctx, n)\<close> that returned \<open>err\<close> (the writes it
  made follow it), \<open>EvExited r b\<close> the call \<open>r.Exited()\<close> that returned \<open>b\<close>, \<open>EvIncomplete b\<close>
  the call \<open>parser.Incomplete()\<close> that returned \<open>b\<close>, \<open>EvRead\<close> one more piece of standard
  input taken by \<open>parser.Interactive\<close>.
\<close>

datatype 'n event =
    EvNew nat
  | EvOpen string
  | EvParse string
  | EvReset nat
  | EvRun nat 'n "error option"
  | EvExited nat bool
  | EvRead
  | EvIncomplete bool
  | EvStdout string
  | EvStderr string

text \<open>
  Runners are Go pointers: \<open>store\<close> maps the address of a runner to its state,
  \<open>nextAddr\<close> is the address the next \<open>interp.New\<close> returns.
\<close>

record ('r, 'n) world =
  store :: "nat \<Rightarrow> 'r"
  nextAddr :: nat
  trace :: "'n event list"

definition emit :: "'n event list \<Rightarrow> ('r, 'n) world \<Rightarrow> ('r, 'n) world" where
  "emit evs w = w\<lparr>trace := trace w @ evs\<rparr>"

definition alloc :: "'r \<Rightarrow> ('r, 'n) world \<Rightarrow> ('r, 'n) world" where
  "alloc r0 w =
     w\<lparr>store := (store w)(nextAddr w := r0), nextAddr := Suc (nextAddr w),
       trace := trace w @ [EvNew (nextAddr w)]\<rparr>"

section \<open>Command line\<close>

text \<open>
  The command line as \<open>flag.Parse\<close> leaves it: \<open>cFlag\<close> is the value of the last \<open>-c\<close> (None
  when the flag was not given), \<open>aFlags\<close> the values of the \<open>-a\<close> occurrences in order,
  \<open>args\<close> the positional arguments.
\<close>

record cmdline =
  cFlag :: "string option"
  aFlags :: "string list"
  args :: "string list"

definition command :: "cmdline \<Rightarrow> string" where
  "command cl = (case cFlag cl of None \<Rightarrow> [] | Some v \<Rightarrow> v)"

definition NArg :: "cmdline \<Rightarrow> nat" where
  "NArg cl = length (args cl)"

text \<open>\<open>flag.NFlag\<close>: the number of flags that have been set.\<close>

definition NFlag :: "cmdline \<Rightarrow> nat" where
  "NFlag cl = (if cFlag cl = None then 0 else 1) + (if aFlags cl = [] then 0 else 1)"

text \<open>\<open>strings.Split(value, ",")\<close> for a one-character separator.\<close>

fun Split :: "string \<Rightarrow> char \<Rightarrow> string list" where
  "Split [] c = [[]]"
| "Split (x # xs) c =
     (if x = c then [] # Split xs c
      else (case Split xs c of [] \<Rightarrow> [[x]] | y # ys \<Rightarrow> (x # y) # ys))"

text \<open>\<open>arrayFlags.Set\<close> of main.go replaces the list; that of part_000 appends to it.\<close>

definition arrayFlags_Set :: "string list \<Rightarrow> string \<Rightarrow> string list" where
  "arrayFlags_Set i v = Split v CHR '',''"

definition arrayFlags_Set_v0 :: "string list \<Rightarrow> string \<Rightarrow> string list" where
  "arrayFlags_Set_v0 i v = i @ [v]"

definition concArgs :: "cmdline \<Rightarrow> string list" where
  "concArgs cl = foldl arrayFlags_Set [] (aFlags cl)"

definition asyncArgs :: "cmdline \<Rightarrow> string list" where
  "asyncArgs cl = foldl arrayFlags_Set_v0 [] (aFlags cl)"

section \<open>The result aggregator (main.go)\<close>

fun HasError :: "error option list \<Rightarrow> bool" where
  "HasError [] = False"
| "HasError (err # e) = (if err \<noteq> None then True else HasError e)"

definition Add :: "error option list \<Rightarrow> error option \<Rightarrow> error option list" where
  "Add e err = e @ [err]"

text \<open>The loop of \<open>GetError\<close>, on the builder \<open>b\<close> and the flag \<open>hasError\<close>.\<close>

fun GetError_loop :: "('r, 'n) shell \<Rightarrow> error option list \<Rightarrow> string \<times> bool \<Rightarrow> string \<times> bool" where
  "GetError_loop I [] (b, hasError) = (b, hasError)"
| "GetError_loop I (None # e) (b, hasError) = GetError_loop I e (b, hasError)"
| "GetError_loop I (Some err # e) (b, hasError) =
     GetError_loop I e (b @ Error I err @ [CHR 0x0A], True)"

definition GetError :: "('r, 'n) shell \<Rightarrow> error option list \<Rightarrow> error option" where
  "GetError I e =
     (case GetError_loop I e ([], False) of
        (b, hasError) \<Rightarrow> if hasError then Some (Ordinary b) else None)"

section \<open>Parse-then-run and the sequential runner\<close>

definition run :: "('r, 'n) shell \<Rightarrow> nat \<Rightarrow> string \<Rightarrow> string \<Rightarrow> ('r, 'n) world
    \<Rightarrow> error option \<times> ('r, 'n) world" where
  "run I r reader name w =
     (case Parse I reader name of
        Inl m \<Rightarrow> (Some (Ordinary m), emit [EvParse name] w)
      | Inr prog \<Rightarrow>
          (let w1 = emit [EvParse name] w;
               w2 = emit [EvReset r] (w1\<lparr>store := (store w1)(r := Reset I (store w1 r))\<rparr>)
           in case Run I prog (store w2 r) of
                (st, out, err) \<Rightarrow>
                  (err, emit (EvRun r prog err # map EvStdout out)
                          (w2\<lparr>store := (store w2)(r := st)\<rparr>))))"

definition runPath :: "('r, 'n) shell \<Rightarrow> 'n env \<Rightarrow> nat \<Rightarrow> string \<Rightarrow> ('r, 'n) world
    \<Rightarrow> error option \<times> ('r, 'n) world" where
  "runPath I E r path w =
     (case files E path of
        Inl m \<Rightarrow> (Some (Ordinary m), emit [EvOpen path] w)
      | Inr f \<Rightarrow> run I r f path (emit [EvOpen path] w))"

text \<open>The loop over \<open>flag.Args()\<close> in \<open>runAll\<close>: the first error returns.\<close>

fun runPaths :: "('r, 'n) shell \<Rightarrow> 'n env \<Rightarrow> nat \<Rightarrow> string list \<Rightarrow> ('r, 'n) world
    \<Rightarrow> error option \<times> ('r, 'n) world" where
  "runPaths I E r [] w = (None, w)"
| "runPaths I E r (path # paths) w =
     (case runPath I E r path w of
        (Some err, w') \<Rightarrow> (Some err, w')
      | (None, w') \<Rightarrow> runPaths I E r paths w')"

section \<open>The interactive loop\<close>

text \<open>
  The body of the callback's loop over the statements: the state is the variable
  \<open>runErr\<close> and the world; the boolean is False when the callback returns false from
  inside the loop.
\<close>

fun runStmts :: "('r, 'n) shell \<Rightarrow> nat \<Rightarrow> 'n list \<Rightarrow> error option \<times> ('r, 'n) world
    \<Rightarrow> bool \<times> error option \<times> ('r, 'n) world" where
  "runStmts I r [] (runErr, w) = (True, runErr, w)"
| "runStmts I r (stmt # stmts) (runErr, w) =
     (case Run I stmt (store w r) of
        (st, out, err) \<Rightarrow>
          (let w' = emit (EvRun r stmt err # map EvStdout out @ [EvExited r (Exited I st)])
                      (w\<lparr>store := (store w)(r := st)\<rparr>)
           in if Exited I st then (False, err, w') else runStmts I r stmts (err, w')))"

definition fn :: "('r, 'n) shell \<Rightarrow> nat \<Rightarrow> 'n list \<times> bool \<Rightarrow> error option \<times> ('r, 'n) world
    \<Rightarrow> bool \<times> error option \<times> ('r, 'n) world" where
  "fn I r c s =
     (case c of (stmts, incomplete) \<Rightarrow>
        if incomplete then (True, fst s, emit [EvIncomplete True, EvStdout ''> ''] (snd s))
        else (case runStmts I r stmts (fst s, emit [EvIncomplete False] (snd s)) of
                (False, s') \<Rightarrow> (False, s')
              | (True, runErr, w') \<Rightarrow> (True, runErr, emit [EvStdout ''$ ''] w')))"

text \<open>
  Modelled from the spec: \<open>parser.Interactive(stdin, fn)\<close> of the external syntax package,
  the driver of the interactive loop, which is not under src/. For each chunk of input
  it reads it calls the callback with the statements. When the callback answers false
  it stops, never calling the callback again, and returns nil (the spec's state Exited
  propagates no error of the driver). When the input ends it returns the read error, if
  there is one (the spec's state Failed), and nil when the input is exhausted.
\<close>

fun Interactive :: "'n env \<Rightarrow> ('n list \<times> bool \<Rightarrow> error option \<times> ('r, 'n) world
      \<Rightarrow> bool \<times> error option \<times> ('r, 'n) world)
    \<Rightarrow> ('n list \<times> bool) list \<Rightarrow> error option \<times> ('r, 'n) world
    \<Rightarrow> string option \<times> error option \<times> ('r, 'n) world" where
  "Interactive E f [] s = (readErr E, s)"
| "Interactive E f (c # cs) s =
     (case f c (fst s, emit [EvRead] (snd s)) of
        (True, s') \<Rightarrow> Interactive E f cs s'
      | (False, s') \<Rightarrow> (None, s'))"

definition runInteractive :: "('r, 'n) shell \<Rightarrow> 'n env \<Rightarrow> nat \<Rightarrow> ('r, 'n) world
    \<Rightarrow> error option \<times> ('r, 'n) world" where
  "runInteractive I E r w =
     (case Interactive E (fn I r) (chunks E) (None, emit [EvStdout ''$ ''] w) of
        (Some m, runErr, w') \<Rightarrow> (Some (Ordinary m), w')
      | (None, runErr, w') \<Rightarrow> (runErr, w'))"

section \<open>The concurrent runner\<close>

text \<open>
  The goroutines of \<open>runAll\<close> run interleaved. Each goroutine is at one of the calls of
  its body (\<open>interp.New\<close> in main.go, then \<open>os.Open\<close>, \<open>Parse\<close>, \<open>Reset\<close>, \<open>Run\<close> of
  \<open>runPath\<close> and \<open>run\<close>, then the send on \<open>errChan\<close>); a call is one atomic step.
\<close>

datatype 'n gstate =
    GNew string
  | GOpen nat string
  | GParse nat string string
  | GReset nat 'n
  | GRun nat 'n
  | GSend "error option"
  | GDone

fun gstep :: "('r, 'n) shell \<Rightarrow> 'n env \<Rightarrow> 'n gstate \<Rightarrow> ('r, 'n) world
    \<Rightarrow> 'n gstate \<times> ('r, 'n) world" where
  "gstep I E (GNew p) w =
     (case New I of
        Inl m \<Rightarrow> (GSend (Some (Ordinary m)), w)
      | Inr r0 \<Rightarrow> (GOpen (nextAddr w) p, alloc r0 w))"
| "gstep I E (GOpen r path) w =
     (case files E path of
        Inl m \<Rightarrow> (GSend (Some (Ordinary m)), emit [EvOpen path] w)
      | Inr f \<Rightarrow> (GParse r f path, emit [EvOpen path] w))"
| "gstep I E (GParse r reader name) w =
     (case Parse I reader name of
        Inl m \<Rightarrow> (GSend (Some (Ordinary m)), emit [EvParse name] w)
      | Inr prog \<Rightarrow> (GReset r prog, emit [EvParse name] w))"
| "gstep I E (GReset r prog) w =
     (GRun r prog, emit [EvReset r] (w\<lparr>store := (store w)(r := Reset I (store w r))\<rparr>))"
| "gstep I E (GRun r prog) w =
     (case Run I prog (store w r) of
        (st, out, err) \<Rightarrow>
          (GSend err,
           emit (EvRun r prog err # map EvStdout out) (w\<lparr>store := (store w)(r := st)\<rparr>)))"
| "gstep I E (GSend err) w = (GSend err, w)"
| "gstep I E GDone w = (GDone, w)"

text \<open>
  The main goroutine is in its receive loop (the counter \<open>i\<close> and, in main.go, the
  collected \<open>errs\<close>) or has returned from the concurrent part with an error value.
\<close>

datatype mstate = MLoop nat "error option list" | MReturned "error option"

record ('r, 'n) conf =
  gos :: "'n gstate list"
  errChan :: "error option list"
  mainSt :: mstate
  cworld :: "('r, 'n) world"

text \<open>
  One step of goroutine \<open>t\<close>. \<open>errChan\<close> is buffered with room for one value per
  goroutine: a send blocks while the buffer is full.
\<close>

definition goStep :: "('r, 'n) shell \<Rightarrow> 'n env \<Rightarrow> nat \<Rightarrow> ('r, 'n) conf \<Rightarrow> ('r, 'n) conf" where
  "goStep I E t c =
     (case gos c ! t of
        GSend err \<Rightarrow>
          if length (errChan c) < length (gos c)
          then c\<lparr>gos := (gos c)[t := GDone], errChan := errChan c @ [err]\<rparr>
          else c
      | g \<Rightarrow>
          (case gstep I E g (cworld c) of
             (g', w') \<Rightarrow> c\<lparr>gos := (gos c)[t := g'], cworld := w'\<rparr>))"

text \<open>
  One step of the main goroutine in main.go: receive one value and add it to \<open>errs\<close>
  (blocking while the channel is empty), and after the loop return \<open>errs.GetError()\<close>.
\<close>

definition mainStep :: "('r, 'n) shell \<Rightarrow> ('r, 'n) conf \<Rightarrow> ('r, 'n) conf" where
  "mainStep I c =
     (case mainSt c of
        MLoop i errs \<Rightarrow>
          if i < length (gos c)
          then (case errChan c of
                  [] \<Rightarrow> c
                | err # q \<Rightarrow> c\<lparr>errChan := q, mainSt := MLoop (Suc i) (Add errs err)\<rparr>)
          else c\<lparr>mainSt := MReturned (GetError I errs)\<rparr>
      | MReturned err \<Rightarrow> c)"

text \<open>The same step in part_000: the first error received returns.\<close>

definition mainStep_v0 :: "('r, 'n) shell \<Rightarrow> ('r, 'n) conf \<Rightarrow> ('r, 'n) conf" where
  "mainStep_v0 I c =
     (case mainSt c of
        MLoop i errs \<Rightarrow>
          if i < length (gos c)
          then (case errChan c of
                  [] \<Rightarrow> c
                | err # q \<Rightarrow>
                    if err \<noteq> None then c\<lparr>errChan := q, mainSt := MReturned err\<rparr>
                    else c\<lparr>errChan := q, mainSt := MLoop (Suc i) errs\<rparr>)
          else c\<lparr>mainSt := MReturned None\<rparr>
      | MReturned err \<Rightarrow> c)"

text \<open>
  The scheduler picks a goroutine: \<open>t\<close> below the number of goroutines is that one, any
  other \<open>t\<close> is the main goroutine. Once \<open>runAll\<close> has returned nothing more is observed
  (\<open>main\<close> exits the process).
\<close>

definition step :: "(('r, 'n) conf \<Rightarrow> ('r, 'n) conf) \<Rightarrow> ('r, 'n) shell \<Rightarrow> 'n env \<Rightarrow> nat
    \<Rightarrow> ('r, 'n) conf \<Rightarrow> ('r, 'n) conf" where
  "step ms I E t c =
     (case mainSt c of
        MReturned err \<Rightarrow> c
      | MLoop i errs \<Rightarrow> if t < length (gos c) then goStep I E t c else ms c)"

fun exec :: "(('r, 'n) conf \<Rightarrow> ('r, 'n) conf) \<Rightarrow> ('r, 'n) shell \<Rightarrow> 'n env \<Rightarrow> nat list
    \<Rightarrow> ('r, 'n) conf \<Rightarrow> ('r, 'n) conf" where
  "exec ms I E [] c = c"
| "exec ms I E (t # ts) c = exec ms I E ts (step ms I E t c)"

text \<open>
  A schedule that lets every goroutine finish and the main goroutine receive all:
  six rounds over the \<open>M\<close> goroutines, then \<open>M + 1\<close> steps of the main goroutine. An
  execution is any schedule followed by this one, so every interleaving is covered and
  every execution is complete.
\<close>

definition drain :: "nat \<Rightarrow> nat list" where
  "drain M = concat (replicate 6 [0..<M]) @ replicate (Suc M) M"

definition launch :: "'n gstate list \<Rightarrow> ('r, 'n) world \<Rightarrow> ('r, 'n) conf" where
  "launch gs w = \<lparr>gos = gs, errChan = [], mainSt = MLoop 0 [], cworld = w\<rparr>"

definition finish :: "('r, 'n) conf \<Rightarrow> (error option \<times> ('r, 'n) world) option" where
  "finish c = (case mainSt c of MReturned err \<Rightarrow> Some (err, cworld c) | MLoop i errs \<Rightarrow> None)"

text \<open>main.go: one goroutine per element of \<open>concArgs\<close>, each making its own runner.\<close>

definition runConc :: "('r, 'n) shell \<Rightarrow> 'n env \<Rightarrow> string list \<Rightarrow> nat list \<Rightarrow> ('r, 'n) world
    \<Rightarrow> (error option \<times> ('r, 'n) world) option" where
  "runConc I E ps sched w =
     finish (exec (mainStep I) I E (sched @ drain (length ps)) (launch (map GNew ps) w))"

text \<open>part_000: one goroutine per element of \<open>asyncArgs\<close>, each on the runner \<open>r\<close>.\<close>

definition runConc_v0 :: "('r, 'n) shell \<Rightarrow> 'n env \<Rightarrow> nat \<Rightarrow> string list \<Rightarrow> nat list
    \<Rightarrow> ('r, 'n) world \<Rightarrow> (error option \<times> ('r, 'n) world) option" where
  "runConc_v0 I E r ps sched w =
     finish (exec (mainStep_v0 I) I E (sched @ drain (length ps)) (launch (map (GOpen r) ps) w))"

section \<open>The two variants of \<open>runAll\<close> and \<open>main\<close>\<close>

text \<open>
  \<open>runAll\<close> of main.go. The result is None when the concurrent part has not returned
  (shown below never to happen).
\<close>

definition runAll :: "('r, 'n) shell \<Rightarrow> 'n env \<Rightarrow> cmdline \<Rightarrow> nat list \<Rightarrow> ('r, 'n) world
    \<Rightarrow> (error option \<times> ('r, 'n) world) option" where
  "runAll I E cl sched w =
     (case New I of
        Inl m \<Rightarrow> Some (Some (Ordinary m), w)
      | Inr r0 \<Rightarrow>
          (let seqRunner = nextAddr w; w1 = alloc r0 w in
           if command cl \<noteq> [] then Some (run I seqRunner (command cl) [] w1)
           else if NArg cl = 0 \<and> NFlag cl = 0 then
             (if isTerminal E then Some (runInteractive I E seqRunner w1)
              else Some (run I seqRunner (stdin E) [] w1))
           else
             (case runPaths I E seqRunner (args cl) w1 of
                (Some err, w2) \<Rightarrow> Some (Some err, w2)
              | (None, w2) \<Rightarrow> runConc I E (concArgs cl) sched w2)))"

text \<open>\<open>runAll\<close> of part_000.\<close>

definition runAll_v0 :: "('r, 'n) shell \<Rightarrow> 'n env \<Rightarrow> cmdline \<Rightarrow> nat list \<Rightarrow> ('r, 'n) world
    \<Rightarrow> (error option \<times> ('r, 'n) world) option" where
  "runAll_v0 I E cl sched w =
     (case New I of
        Inl m \<Rightarrow> Some (Some (Ordinary m), w)
      | Inr r0 \<Rightarrow>
          (let r = nextAddr w; w1 = alloc r0 w in
           if command cl \<noteq> [] then Some (run I r (command cl) [] w1)
           else if NArg cl = 0 then
             (if isTerminal E then Some (runInteractive I E r w1)
              else Some (run I r (stdin E) [] w1))
           else
             (case runPaths I E r (args cl) w1 of
                (Some err, w2) \<Rightarrow> Some (Some err, w2)
              | (None, w2) \<Rightarrow> runConc_v0 I E r (asyncArgs cl) sched w2)))"

text \<open>
  What \<open>main\<close> does with the error of \<open>runAll\<close>: the exit status of the process and the
  world it leaves. Returning from \<open>main\<close> is exit status 0.
\<close>

fun exitWith :: "('r, 'n) shell \<Rightarrow> error option \<times> ('r, 'n) world \<Rightarrow> int \<times> ('r, 'n) world" where
  "exitWith I (Some (ExitStatus e), w) = (uint e, w)"
| "exitWith I (Some (Ordinary m), w) =
     (1, emit [EvStderr (Error I (Ordinary m) @ [CHR 0x0A])] w)"
| "exitWith I (None, w) = (0, w)"

definition main :: "('r, 'n) shell \<Rightarrow> 'n env \<Rightarrow> cmdline \<Rightarrow> nat list \<Rightarrow> ('r, 'n) world
    \<Rightarrow> (int \<times> ('r, 'n) world) option" where
  "main I E cl sched w = map_option (exitWith I) (runAll I E cl sched w)"

definition main_v0 :: "('r, 'n) shell \<Rightarrow> 'n env \<Rightarrow> cmdline \<Rightarrow> nat list \<Rightarrow> ('r, 'n) world
    \<Rightarrow> (int \<times> ('r, 'n) world) option" where
  "main_v0 I E cl sched w = map_option (exitWith I) (runAll_v0 I E cl sched w)"

section \<open>A small interpreter for concrete runs\<close>

text \<open>
  One instance of the external interpreter, used to evaluate the host on concrete inputs:
  a runner holds variable bindings and an exited flag; a node is a list of commands.
  \<open>Reset\<close> forgets every variable; \<open>exit n\<close> ends the run with \<open>ExitStatus n\<close>.
\<close>

datatype cmd = Assign string string | Echo string | ExitCmd "8 word" | Fail string

type_synonym toyRunner = "(string \<times> string) list \<times> bool"

fun toyRun :: "cmd list \<Rightarrow> toyRunner \<Rightarrow> toyRunner \<times> string list \<times> error option" where
  "toyRun [] (vs, ex) = ((vs, ex), [], None)"
| "toyRun (Assign x v # cs) (vs, ex) = toyRun cs ((x, v) # vs, ex)"
| "toyRun (Echo x # cs) (vs, ex) =
     (case toyRun cs (vs, ex) of
        (st, out, err) \<Rightarrow>
          (st, ((case map_of vs x of None \<Rightarrow> [] | Some v \<Rightarrow> v) @ [CHR 0x0A]) # out, err))"
| "toyRun (ExitCmd n # cs) (vs, ex) = ((vs, True), [], Some (ExitStatus n))"
| "toyRun (Fail m # cs) (vs, ex) = ((vs, ex), [], Some (Ordinary m))"

definition toyParse :: "string \<Rightarrow> string \<Rightarrow> string + cmd list" where
  "toyParse reader name =
     (if reader = ''X=1'' then Inr [Assign ''X'' ''1'']
      else if reader = ''echo $X'' then Inr [Echo ''X'']
      else if reader = ''exit 7'' then Inr [ExitCmd 7]
      else if reader = ''exit 3'' then Inr [ExitCmd 3]
      else if reader = ''false'' then Inr [Fail ''false'']
      else if reader = [] then Inr []
      else Inl (name @ '': syntax error''))"

definition toyShell :: "(toyRunner, cmd list) shell" where
  "toyShell =
     \<lparr>New = Inr ([], False), Reset = (\<lambda>r. ([], False)), Run = toyRun, Exited = snd,
      Parse = toyParse, ExitText = (\<lambda>e. ''exit status'')\<rparr>"

definition toyFiles :: "string \<Rightarrow> string + string" where
  "toyFiles path =
     (if path = ''a.sh'' then Inr ''X=1''
      else if path = ''b.sh'' then Inr ''echo $X''
      else if path = ''exit3.sh'' then Inr ''exit 3''
      else if path = ''false.sh'' then Inr ''false''
      else if path = ''bad.sh'' then Inr ''if''
      else if path = ''empty.sh'' then Inr []
      else Inl (''open '' @ path @ '': no such file or directory''))"

definition toyEnv :: "(cmd list) env" where
  "toyEnv =
     \<lparr>files = toyFiles, stdin = [], isTerminal = False, chunks = [],
      readErr = None\<rparr>"

definition toyWorld :: "(toyRunner, cmd list) world" where
  "toyWorld = \<lparr>store = (\<lambda>a. ([], False)), nextAddr = 0, trace = []\<rparr>"

section \<open>Notions used in the statements\<close>

text \<open>
  The events a computation added to the trace, the \<open>Run\<close> calls among events (runner,
  node, returned error), the error of the last \<open>Run\<close> call among events (\<open>e\<close> when there
  is none), whether \<open>r.Exited()\<close> answered true, and whether nothing at all follows the
  first such answer.
\<close>

definition added :: "('r, 'n) world \<Rightarrow> ('r, 'n) world \<Rightarrow> 'n event list" where
  "added w w' = drop (length (trace w)) (trace w')"

fun ran :: "'n event list \<Rightarrow> (nat \<times> 'n \<times> error option) list" where
  "ran [] = []"
| "ran (EvRun r n err # evs) = (r, n, err) # ran evs"
| "ran (ev # evs) = ran evs"

definition lastErr :: "error option \<Rightarrow> 'n event list \<Rightarrow> error option" where
  "lastErr e evs = (if ran evs = [] then e else snd (snd (last (ran evs))))"

fun exits :: "'n event list \<Rightarrow> bool" where
  "exits [] = False"
| "exits (EvExited r b # evs) = (b \<or> exits evs)"
| "exits (ev # evs) = exits evs"

fun quietAfterExit :: "'n event list \<Rightarrow> bool" where
  "quietAfterExit [] = True"
| "quietAfterExit (EvExited r True # evs) = (evs = [])"
| "quietAfterExit (ev # evs) = quietAfterExit evs"

text \<open>The statements of the chunks during which the parser was not incomplete.\<close>

definition completed :: "('n list \<times> bool) list \<Rightarrow> 'n list" where
  "completed cs = concat (map fst (filter (\<lambda>c. \<not> snd c) cs))"

text \<open>
  The interactive loop as the spec describes it, to be compared with \<open>runInteractive\<close>.
  \<open>inSequence I stmts st\<close> is the execution of \<open>stmts\<close> in sequence on one session that
  starts in the state \<open>st\<close>: each statement runs from the state the statement before it
  left, and nothing runs after the first statement that leaves the interpreter exited.
  It lists the statements executed, each with the error it returned and the state it
  left. \<open>sessionAfter\<close> is the state of the session afterwards, \<open>errorAfter\<close> the error of the
  last statement executed (\<open>e\<close> when none was executed), \<open>exitedAfter\<close> whether the
  interpreter has exited.
\<close>

fun inSequence :: "('r, 'n) shell \<Rightarrow> 'n list \<Rightarrow> 'r \<Rightarrow> ('n \<times> error option \<times> 'r) list" where
  "inSequence I [] st = []"
| "inSequence I (stmt # stmts) st =
     (case Run I stmt st of
        (st', out, err) \<Rightarrow>
          (stmt, err, st') # (if Exited I st' then [] else inSequence I stmts st'))"

definition sessionAfter :: "('r, 'n) shell \<Rightarrow> 'n list \<Rightarrow> 'r \<Rightarrow> 'r" where
  "sessionAfter I stmts st =
     (if inSequence I stmts st = [] then st else snd (snd (last (inSequence I stmts st))))"

definition errorAfter :: "('r, 'n) shell \<Rightarrow> 'n list \<Rightarrow> 'r \<Rightarrow> error option \<Rightarrow> error option" where
  "errorAfter I stmts st e =
     (if inSequence I stmts st = [] then e else fst (snd (last (inSequence I stmts st))))"

definition exitedAfter :: "('r, 'n) shell \<Rightarrow> 'n list \<Rightarrow> 'r \<Rightarrow> bool" where
  "exitedAfter I stmts st =
     (inSequence I stmts st \<noteq> [] \<and> Exited I (snd (snd (last (inSequence I stmts st)))))"

text \<open>
  The events of executing a batch in sequence on the runner \<open>r\<close>: for each statement
  executed the call of \<open>Run\<close>, what it wrote, and the question whether the interpreter
  has exited.
\<close>

fun batchEvents :: "('r, 'n) shell \<Rightarrow> nat \<Rightarrow> 'n list \<Rightarrow> 'r \<Rightarrow> 'n event list" where
  "batchEvents I r [] st = []"
| "batchEvents I r (stmt # stmts) st =
     (case Run I stmt st of
        (st', out, err) \<Rightarrow>
          EvRun r stmt err # map EvStdout out @ EvExited r (Exited I st')
            # (if Exited I st' then [] else batchEvents I r stmts st'))"

text \<open>
  The events of the loop after its first prompt, on a session in the state \<open>st\<close>. A
  chunk the parser reports as incomplete is read, the continuation prompt is written,
  nothing is executed and the loop goes on with the next chunk on the same session. A
  complete chunk is read and executed in sequence; when the interpreter has exited
  the loop is over, otherwise the primary prompt is written and the loop goes on with
  the next chunk, on the session as the batch left it.
\<close>

fun dialogue :: "('r, 'n) shell \<Rightarrow> nat \<Rightarrow> ('n list \<times> bool) list \<Rightarrow> 'r \<Rightarrow> 'n event list" where
  "dialogue I r [] st = []"
| "dialogue I r ((stmts, True) # cs) st =
     [EvRead, EvIncomplete True, EvStdout ''> ''] @ dialogue I r cs st"
| "dialogue I r ((stmts, False) # cs) st =
     [EvRead, EvIncomplete False] @ batchEvents I r stmts st
       @ (if exitedAfter I stmts st then []
          else EvStdout ''$ '' # dialogue I r cs (sessionAfter I stmts st))"

text \<open>The runners reset among events.\<close>

fun resets :: "'n event list \<Rightarrow> nat list" where
  "resets [] = []"
| "resets (EvReset a # evs) = a # resets evs"
| "resets (ev # evs) = resets evs"

text \<open>
  An interactive input for the small interpreter: an incomplete line, a batch whose
  first statement fails, a batch that exits with status 3 before its second statement,
  and one more batch.
\<close>

definition toyTty :: "(cmd list) env" where
  "toyTty = toyEnv\<lparr>isTerminal := True,
     chunks := [([], True), ([[Fail ''boom''], [Assign ''X'' ''1'']], False),
                ([[ExitCmd 3], [Echo ''X'']], False), ([[Echo ''X'']], False)]\<rparr>"


text \<open>The failures among the outcomes added to the aggregator, in the order added.\<close>

fun failures :: "error option list \<Rightarrow> error list" where
  "failures [] = []"
| "failures (None # e) = failures e"
| "failures (Some err # e) = err # failures e"

text \<open>
  The world after every script of a list has been run on runner \<open>r\<close>, one after the
  other, whatever each returned.
\<close>

definition after :: "('r, 'n) shell \<Rightarrow> 'n env \<Rightarrow> nat \<Rightarrow> string list \<Rightarrow> ('r, 'n) world
    \<Rightarrow> ('r, 'n) world" where
  "after I E r paths w = foldl (\<lambda>w path. snd (runPath I E r path w)) w paths"

text \<open>The paths a trace opens, in order.\<close>

fun opened :: "'n event list \<Rightarrow> string list" where
  "opened [] = []"
| "opened (EvOpen path # evs) = path # opened evs"
| "opened (ev # evs) = opened evs"

section \<open>Notions used in the proofs about the concurrent runner\<close>

text \<open>
  The body of a goroutine of main.go run without interruption: \<open>interp.New\<close>, then
  \<open>runPath\<close> on the new runner; its first component is what the goroutine sends.
\<close>

definition goBody :: "('r, 'n) shell \<Rightarrow> 'n env \<Rightarrow> string \<Rightarrow> ('r, 'n) world
    \<Rightarrow> error option \<times> ('r, 'n) world" where
  "goBody I E p w =
     (case New I of
        Inl m \<Rightarrow> (Some (Ordinary m), w)
      | Inr rn \<Rightarrow> runPath I E (nextAddr w) p (alloc rn w))"

text \<open>
  What a script reports when it runs alone on a runner of its own: the error of
  \<open>interp.New\<close>, of opening, of parsing, or of running the program from the reset state
  of a new runner.
\<close>

definition outcome :: "('r, 'n) shell \<Rightarrow> 'n env \<Rightarrow> string \<Rightarrow> error option" where
  "outcome I E p =
     (case New I of
        Inl m \<Rightarrow> Some (Ordinary m)
      | Inr rn \<Rightarrow>
          (case files E p of
             Inl m \<Rightarrow> Some (Ordinary m)
           | Inr f \<Rightarrow>
               (case Parse I f p of
                  Inl m \<Rightarrow> Some (Ordinary m)
                | Inr prog \<Rightarrow> snd (snd (Run I prog (Reset I rn))))))"

text \<open>The runner a goroutine holds, if it holds one.\<close>

fun addrOf :: "'n gstate \<Rightarrow> nat option" where
  "addrOf (GOpen a p) = Some a"
| "addrOf (GParse a f p) = Some a"
| "addrOf (GReset a prog) = Some a"
| "addrOf (GRun a prog) = Some a"
| "addrOf g = None"

text \<open>
  What holds of goroutine state \<open>g\<close> for path \<open>p\<close> in main.go: its runner was made after
  address \<open>base\<close>, is in the state \<open>interp.New\<close> gave it (reset once the goroutine is about
  to run), and what it is about to send is the outcome of \<open>p\<close> alone.
\<close>

fun gok :: "('r, 'n) shell \<Rightarrow> 'n env \<Rightarrow> nat \<Rightarrow> string \<Rightarrow> 'n gstate \<Rightarrow> ('r, 'n) world \<Rightarrow> bool" where
  "gok I E base p (GNew q) w = (q = p)"
| "gok I E base p (GOpen a q) w =
     (q = p \<and> base \<le> a \<and> a < nextAddr w \<and> New I = Inr (store w a))"
| "gok I E base p (GParse a f q) w =
     (q = p \<and> base \<le> a \<and> a < nextAddr w \<and> New I = Inr (store w a) \<and> files E p = Inr f)"
| "gok I E base p (GReset a prog) w =
     (base \<le> a \<and> a < nextAddr w \<and> New I = Inr (store w a)
      \<and> (\<exists>f. files E p = Inr f \<and> Parse I f p = Inr prog))"
| "gok I E base p (GRun a prog) w =
     (base \<le> a \<and> a < nextAddr w
      \<and> (\<exists>rn f. New I = Inr rn \<and> store w a = Reset I rn \<and> files E p = Inr f
            \<and> Parse I f p = Inr prog))"
| "gok I E base p (GSend err) w = (err = outcome I E p)"
| "gok I E base p GDone w = True"

text \<open>The values \<open>xs\<close> at the positions of the goroutines that have sent.\<close>

fun doneOut :: "'n gstate list \<Rightarrow> 'a list \<Rightarrow> 'a multiset" where
  "doneOut (g # gs) (x # xs) = (if g = GDone then {#x#} else {#}) + doneOut gs xs"
| "doneOut gs xs = {#}"

text \<open>
  Every goroutine is in a state as above, and no two goroutines hold the same runner.
\<close>

definition threadsOk :: "('r, 'n) shell \<Rightarrow> 'n env \<Rightarrow> nat \<Rightarrow> string list \<Rightarrow> ('r, 'n) conf \<Rightarrow> bool" where
  "threadsOk I E base ps c \<longleftrightarrow>
     length (gos c) = length ps \<and> base \<le> nextAddr (cworld c)
     \<and> (\<forall>t<length ps. gok I E base (ps ! t) (gos c ! t) (cworld c))
     \<and> (\<forall>t<length ps. \<forall>u<length ps. t \<noteq> u \<longrightarrow> addrOf (gos c ! t) \<noteq> None \<longrightarrow>
           addrOf (gos c ! t) \<noteq> addrOf (gos c ! u))"

text \<open>
  The values received and those waiting in the channel are the outcomes of the
  goroutines that have sent; once \<open>runAll\<close> has returned, every goroutine has sent and the
  error returned is \<open>GetError\<close> of the outcomes of all scripts in some order.
\<close>

definition acct :: "('r, 'n) shell \<Rightarrow> 'n env \<Rightarrow> string list \<Rightarrow> ('r, 'n) conf \<Rightarrow> bool" where
  "acct I E ps c \<longleftrightarrow>
     (case mainSt c of
        MLoop i errs \<Rightarrow>
          i = length errs \<and> i \<le> length ps
          \<and> mset (errs @ errChan c) = doneOut (gos c) (map (outcome I E) ps)
      | MReturned e \<Rightarrow>
          list_all (\<lambda>g. g = GDone) (gos c)
          \<and> (\<exists>errs. e = GetError I errs \<and> mset errs = mset (map (outcome I E) ps)))"

definition concInv :: "('r, 'n) shell \<Rightarrow> 'n env \<Rightarrow> nat \<Rightarrow> string list \<Rightarrow> ('r, 'n) conf \<Rightarrow> bool" where
  "concInv I E base ps c \<longleftrightarrow> threadsOk I E base ps c \<and> acct I E ps c"

text \<open>
  The number of goroutines that have sent, and the count kept by both variants: the
  values received and those waiting in the channel are as many as the goroutines that
  have sent.
\<close>

definition ndone :: "'n gstate list \<Rightarrow> nat" where
  "ndone gs = length (filter (\<lambda>g. g = GDone) gs)"

definition cnt :: "('r, 'n) conf \<Rightarrow> bool" where
  "cnt c \<longleftrightarrow>
     (case mainSt c of
        MLoop i errs \<Rightarrow> i \<le> length (gos c) \<and> i + length (errChan c) = ndone (gos c)
      | MReturned e \<Rightarrow> True)"

text \<open>How far a goroutine has come, and how far the main goroutine.\<close>

fun rank :: "'n gstate \<Rightarrow> nat" where
  "rank (GNew p) = 0"
| "rank (GOpen a p) = 1"
| "rank (GParse a f p) = 2"
| "rank (GReset a prog) = 3"
| "rank (GRun a prog) = 4"
| "rank (GSend err) = 5"
| "rank GDone = 6"

definition progress :: "('r, 'n) conf \<Rightarrow> nat" where
  "progress c = (case mainSt c of MLoop i errs \<Rightarrow> i | MReturned e \<Rightarrow> Suc (length (gos c)))"

section \<open>The result aggregator: properties\<close>

lemma foldl_Add: "foldl Add acc outs = acc @ outs"
  by (induction outs arbitrary: acc) (simp_all add: Add_def)

lemma GetError_loop_acc:
  "GetError_loop I e (b, h) =
     (b @ concat (map (\<lambda>err. Error I err @ [CHR 0x0A]) (failures e)), h \<or> failures e \<noteq> [])"
  by (induction e arbitrary: b h rule: failures.induct) simp_all

lemma failures_Nil: "(failures e = []) = (\<not> (\<exists>err. Some err \<in> set e))"
  by (induction e rule: failures.induct) auto

lemma HasError_failures: "HasError e = (failures e \<noteq> [])"
  by (induction e rule: failures.induct) simp_all

lemma GetError_failures:
  "GetError I e =
     (if failures e = [] then None
      else Some (Ordinary (concat (map (\<lambda>err. Error I err @ [CHR 0x0A]) (failures e)))))"
  by (simp add: GetError_def GetError_loop_acc)

text \<open>
  Claim C3. Whatever outcomes are added to the aggregator, in whatever order,
  \<open>GetError\<close> is a failure exactly when one of them is a failure (so it is nil when none
  is, however many successes were added), and then its message is the messages of the
  failures, each followed by a newline, in the order they were added. \<open>HasError\<close> agrees.
\<close>

theorem GetError_composite:
  "GetError I (foldl Add [] outs) =
     (if failures outs = [] then None
      else Some (Ordinary (concat (map (\<lambda>err. Error I err @ [CHR 0x0A]) (failures outs)))))
   \<and> (GetError I (foldl Add [] outs) \<noteq> None) = (\<exists>err. Some err \<in> set outs)
   \<and> HasError (foldl Add [] outs) = (GetError I (foldl Add [] outs) \<noteq> None)"
  by (simp add: foldl_Add GetError_failures failures_Nil HasError_failures)

section \<open>Parse-then-run: properties\<close>

text \<open>
  Claim C6. \<open>run\<close> parses the whole source first. When the parser fails, \<open>run\<close> returns
  the parser's error for that source name as an ordinary error, no runner state changes
  and the only call made is the parse: no reset, no execution. When the parser
  succeeds, the runner is reset, the program is run from the reset state, and the
  error of that run is the result.
\<close>

theorem run_parse_then_run:
  "(Parse I reader name = Inl m \<longrightarrow>
      run I r reader name w = (Some (Ordinary m), w\<lparr>trace := trace w @ [EvParse name]\<rparr>))
   \<and> (Parse I reader name = Inr prog \<longrightarrow>
        (case Run I prog (Reset I (store w r)) of
           (st, out, err) \<Rightarrow>
             run I r reader name w =
               (err, w\<lparr>store := (store w)(r := st),
                       trace := trace w @ [EvParse name, EvReset r, EvRun r prog err] @ map EvStdout out\<rparr>)))"
  by (simp add: run_def emit_def split: prod.splits)

theorem run_parse_then_run_witness:
  "run toyShell 0 ''if'' ''bad.sh'' toyWorld =
     (Some (Ordinary ''bad.sh: syntax error''), toyWorld\<lparr>trace := [EvParse ''bad.sh'']\<rparr>)
   \<and> run toyShell 0 ''X=1'' ''a.sh'' (toyWorld\<lparr>store := (\<lambda>a. ([(''Y'', ''2'')], False))\<rparr>) =
       (None, toyWorld\<lparr>store := (\<lambda>a. ([(''Y'', ''2'')], False))(0 := ([(''X'', ''1'')], False)),
                trace := [EvParse ''a.sh'', EvReset 0, EvRun 0 [Assign ''X'' ''1''] None]\<rparr>)"
  using run_parse_then_run[where I = toyShell and reader = "''if''" and name = "''bad.sh''"
      and m = "''bad.sh: syntax error''" and r = 0 and w = toyWorld]
    run_parse_then_run[where I = toyShell and reader = "''X=1''" and name = "''a.sh''"
      and prog = "[Assign ''X'' ''1'']" and r = 0
      and w = "toyWorld\<lparr>store := (\<lambda>a. ([(''Y'', ''2'')], False))\<rparr>"]
  by (simp add: toyShell_def toyParse_def toyWorld_def)

section \<open>The sequential runner: properties\<close>

lemma after_Cons: "after I E r (p # ps) w = after I E r ps (snd (runPath I E r p w))"
  by (simp add: after_def)

lemma opened_append: "opened (xs @ ys) = opened xs @ opened ys"
  by (induction xs rule: opened.induct) simp_all

lemma opened_stdout: "opened (map EvStdout out) = []"
  by (induction out) simp_all

lemma opened_runPath:
  "opened (trace (snd (runPath I E r p w))) = opened (trace w) @ [p]"
  by (simp add: runPath_def run_def emit_def opened_append opened_stdout
      split: sum.splits prod.splits)

lemma opened_after: "opened (trace (after I E r ps w)) = opened (trace w) @ ps"
proof (induction ps arbitrary: w)
  case Nil
  then show ?case by (simp add: after_def)
next
  case (Cons p ps)
  then show ?case by (simp add: after_Cons opened_runPath)
qed

lemma runPaths_fail:
  "k < length paths \<Longrightarrow>
   \<forall>j<k. fst (runPath I E r (paths ! j) (after I E r (take j paths) w)) = None \<Longrightarrow>
   fst (runPath I E r (paths ! k) (after I E r (take k paths) w)) = Some err \<Longrightarrow>
   runPaths I E r paths w = (Some err, after I E r (take (Suc k) paths) w)"
proof (induction paths arbitrary: w k)
  case Nil
  then show ?case by simp
next
  case (Cons p ps)
  show ?case
  proof (cases k)
    case 0
    with Cons.prems(3) have "fst (runPath I E r p w) = Some err"
      by (simp add: after_def)
    then show ?thesis using 0
      by (cases "runPath I E r p w") (simp add: after_def)
  next
    case (Suc k')
    from Cons.prems(2) Suc have p0: "fst (runPath I E r p w) = None"
      by (auto simp: after_def dest: spec[of _ 0])
    let ?w = "snd (runPath I E r p w)"
    have a: "k' < length ps" using Cons.prems(1) Suc by simp
    have b: "\<forall>j<k'. fst (runPath I E r (ps ! j) (after I E r (take j ps) ?w)) = None"
    proof (intro allI impI)
      fix j assume "j < k'"
      then have "Suc j < k" using Suc by simp
      with Cons.prems(2)
      have "fst (runPath I E r ((p # ps) ! Suc j) (after I E r (take (Suc j) (p # ps)) w)) = None"
        by blast
      then show "fst (runPath I E r (ps ! j) (after I E r (take j ps) ?w)) = None"
        by (simp add: after_Cons)
    qed
    have c: "fst (runPath I E r (ps ! k') (after I E r (take k' ps) ?w)) = Some err"
      using Cons.prems(3) Suc by (simp add: after_Cons)
    from Cons.IH[OF a b c] p0 show ?thesis using Suc
      by (cases "runPath I E r p w") (simp add: after_Cons)
  qed
qed

lemma runPaths_ok:
  "(fst (runPaths I E r paths w) = None) =
     (\<forall>j<length paths. fst (runPath I E r (paths ! j) (after I E r (take j paths) w)) = None)"
proof (induction paths arbitrary: w)
  case Nil
  then show ?case by simp
next
  case (Cons p ps)
  show ?case
  proof (cases "runPath I E r p w")
    case (Pair e w')
    show ?thesis
    proof (cases e)
      case None
      have "(\<forall>j<length (p # ps).
               fst (runPath I E r ((p # ps) ! j) (after I E r (take j (p # ps)) w)) = None)
            = (\<forall>j<length ps. fst (runPath I E r (ps ! j) (after I E r (take j ps) w')) = None)"
        using Pair None
        by (simp add: All_less_Suc2 after_Cons) (simp add: after_def)
      then show ?thesis using Pair None Cons.IH[of w'] by simp
    next
      case (Some a)
      then show ?thesis using Pair
        by (auto simp: after_def intro!: exI[of _ 0])
    qed
  qed
qed

text \<open>
  Claim C4. The scripts run in order on the one runner \<open>r\<close>. If script \<open>k\<close> fails and
  none before it does (each judged in the world its predecessors left), \<open>runPaths\<close>
  returns exactly the error of script \<open>k\<close> in the world left by the first \<open>k + 1\<close>
  scripts: the later scripts leave no trace, and the files opened are the first
  \<open>k + 1\<close> paths only. \<open>runPaths\<close> succeeds exactly when every script succeeds.
\<close>

theorem runPaths_first_failure:
  "(k < length paths
      \<and> (\<forall>j<k. fst (runPath I E r (paths ! j) (after I E r (take j paths) w)) = None)
      \<and> fst (runPath I E r (paths ! k) (after I E r (take k paths) w)) = Some err
    \<longrightarrow> runPaths I E r paths w = (Some err, after I E r (take (Suc k) paths) w)
        \<and> opened (trace (snd (runPaths I E r paths w))) = opened (trace w) @ take (Suc k) paths)
   \<and> ((fst (runPaths I E r paths w) = None) =
        (\<forall>j<length paths. fst (runPath I E r (paths ! j) (after I E r (take j paths) w)) = None))"
  using runPaths_fail[of k paths I E r w err] runPaths_ok[of I E r paths w]
  by (simp add: opened_after)

theorem runPaths_first_failure_witness:
  "runPaths toyShell toyEnv 0 [''a.sh'', ''bad.sh'', ''b.sh''] toyWorld =
     (Some (Ordinary ''bad.sh: syntax error''),
      after toyShell toyEnv 0 [''a.sh'', ''bad.sh''] toyWorld)
   \<and> opened (trace (snd (runPaths toyShell toyEnv 0 [''a.sh'', ''bad.sh'', ''b.sh''] toyWorld))) =
       [''a.sh'', ''bad.sh'']"
  using runPaths_first_failure[where k = 1 and paths = "[''a.sh'', ''bad.sh'', ''b.sh'']"
      and I = toyShell and E = toyEnv and r = 0 and w = toyWorld
      and err = "Ordinary ''bad.sh: syntax error''"]
  by (simp add: runPath_def run_def after_def emit_def toyShell_def toyEnv_def toyFiles_def
      toyParse_def toyWorld_def)

section \<open>The interactive loop: properties\<close>

lemma ran_append: "ran (xs @ ys) = ran xs @ ran ys"
  by (induction xs rule: ran.induct) simp_all

lemma ran_stdout: "ran (map EvStdout out) = []"
  by (induction out) simp_all

lemma exits_append: "exits (xs @ ys) = (exits xs \<or> exits ys)"
  by (induction xs rule: exits.induct) simp_all

lemma exits_stdout: "exits (map EvStdout out) = False"
  by (induction out) simp_all

lemma quiet_append:
  "quietAfterExit (xs @ ys) = (if exits xs then quietAfterExit xs \<and> ys = [] else quietAfterExit ys)"
  by (induction xs rule: quietAfterExit.induct) auto

lemma quiet_stdout: "quietAfterExit (map EvStdout out)"
  by (induction out) simp_all

lemma lastErr_append: "lastErr e (xs @ ys) = lastErr (lastErr e xs) ys"
  by (simp add: lastErr_def ran_append)

lemma lastErr_Nil: "lastErr e [] = e"
  by (simp add: lastErr_def)

lemma added_append: "trace w' = trace w @ evs \<Longrightarrow> added w w' = evs"
  by (simp add: added_def)

lemma runStmts_events:
  "runStmts I r stmts (e, w) = (b, e', w') \<Longrightarrow>
   \<exists>evs. trace w' = trace w @ evs \<and> e' = lastErr e evs \<and> quietAfterExit evs
     \<and> exits evs = (\<not> b) \<and> map fst (ran evs) = replicate (length (ran evs)) r
     \<and> prefix (map (fst \<circ> snd) (ran evs)) stmts
     \<and> (b \<longrightarrow> map (fst \<circ> snd) (ran evs) = stmts)"
proof (induction stmts arbitrary: e w)
  case Nil
  then show ?case by (auto simp: lastErr_def)
next
  case (Cons s ss)
  obtain st out err where R: "Run I s (store w r) = (st, out, err)"
    by (cases "Run I s (store w r)") auto
  let ?evs = "EvRun r s err # map EvStdout out @ [EvExited r (Exited I st)]"
  let ?w = "emit ?evs (w\<lparr>store := (store w)(r := st)\<rparr>)"
  have tr: "trace ?w = trace w @ ?evs" by (simp add: emit_def)
  have le: "lastErr e ?evs = err" by (simp add: lastErr_def ran_append ran_stdout)
  have rn: "ran ?evs = [(r, s, err)]" by (simp add: ran_append ran_stdout)
  have ex: "exits ?evs = Exited I st" by (simp add: exits_append exits_stdout)
  have qu: "quietAfterExit ?evs"
    by (cases "Exited I st") (simp_all add: quiet_append exits_stdout quiet_stdout)
  show ?case
  proof (cases "Exited I st")
    case True
    with Cons.prems R have b: "b = False" and e: "e' = err" and w: "w' = ?w"
      by (auto simp: Let_def)
    have f1: "trace w' = trace w @ ?evs" unfolding w by (rule tr)
    have f2: "e' = lastErr e ?evs" unfolding e by (rule le[symmetric])
    have f3: "exits ?evs = (\<not> b)" unfolding b ex using True by simp
    have f4: "map fst (ran ?evs) = replicate (length (ran ?evs)) r" unfolding rn by simp
    have f5: "prefix (map (fst \<circ> snd) (ran ?evs)) (s # ss)" unfolding rn by simp
    have f6: "b \<longrightarrow> map (fst \<circ> snd) (ran ?evs) = s # ss" unfolding b by simp
    show ?thesis
      by (rule exI[of _ ?evs]) (intro conjI f1 f2 qu f3 f4 f5 f6)
  next
    case False
    with Cons.prems R have "runStmts I r ss (err, ?w) = (b, e', w')" by (simp add: Let_def)
    from Cons.IH[OF this] obtain evs where
      IH: "trace w' = trace ?w @ evs" "e' = lastErr err evs" "quietAfterExit evs"
        "exits evs = (\<not> b)" "map fst (ran evs) = replicate (length (ran evs)) r"
        "prefix (map (fst \<circ> snd) (ran evs)) ss" "b \<longrightarrow> map (fst \<circ> snd) (ran evs) = ss"
      by blast
    have g1: "trace w' = trace w @ (?evs @ evs)" using IH(1) tr by simp
    have g2: "e' = lastErr e (?evs @ evs)" using IH(2) le by (simp only: lastErr_append)
    have g3: "quietAfterExit (?evs @ evs)"
      using IH(3) ex False by (simp only: quiet_append) simp
    have g4: "exits (?evs @ evs) = (\<not> b)"
      using IH(4) ex False by (simp only: exits_append) simp
    have g5: "map fst (ran (?evs @ evs)) = replicate (length (ran (?evs @ evs))) r"
      using IH(5) rn by (simp only: ran_append) simp
    have g6: "prefix (map (fst \<circ> snd) (ran (?evs @ evs))) (s # ss)"
      using IH(6) rn by (simp only: ran_append) simp
    have g7: "b \<longrightarrow> map (fst \<circ> snd) (ran (?evs @ evs)) = s # ss"
      using IH(7) rn by (simp only: ran_append) simp
    show ?thesis
      by (rule exI[of _ "?evs @ evs"]) (intro conjI g1 g2 g3 g4 g5 g6 g7)
  qed
qed

text \<open>
  Claim C10. The loop over the statements of a batch is left early exactly when
  \<open>r.Exited()\<close> answered true; the errors returned play no part. \<open>runErr\<close> afterwards is
  the error returned by the last statement run, whatever earlier statements returned.
  When \<open>r.Exited()\<close> never answered true, every statement of the batch was run, in
  order.
\<close>

theorem runStmts_errors:
  "fst (runStmts I r stmts (e, w)) = (\<not> exits (added w (snd (snd (runStmts I r stmts (e, w))))))
   \<and> fst (snd (runStmts I r stmts (e, w))) = lastErr e (added w (snd (snd (runStmts I r stmts (e, w)))))
   \<and> (\<not> exits (added w (snd (snd (runStmts I r stmts (e, w))))) \<longrightarrow>
        map (fst \<circ> snd) (ran (added w (snd (snd (runStmts I r stmts (e, w)))))) = stmts)"
proof -
  obtain b e' w' where R: "runStmts I r stmts (e, w) = (b, e', w')"
    by (cases "runStmts I r stmts (e, w)") auto
  from runStmts_events[OF R] obtain evs where
    H: "trace w' = trace w @ evs" "e' = lastErr e evs" "exits evs = (\<not> b)"
       "b \<longrightarrow> map (fst \<circ> snd) (ran evs) = stmts"
    by blast
  have a: "added w w' = evs" using H(1) by (rule added_append)
  show ?thesis unfolding R using H(2-4) by (simp add: a)
qed

theorem runStmts_errors_witness:
  "fst (runStmts toyShell 0 [[Fail ''boom''], [Assign ''X'' ''1'']] (None, toyWorld))
   \<and> fst (snd (runStmts toyShell 0 [[Fail ''boom''], [Assign ''X'' ''1'']] (None, toyWorld))) = None
   \<and> ran (added toyWorld (snd (snd (runStmts toyShell 0 [[Fail ''boom''], [Assign ''X'' ''1'']]
         (None, toyWorld))))) =
       [(0, [Fail ''boom''], Some (Ordinary ''boom'')), (0, [Assign ''X'' ''1''], None)]"
  using runStmts_errors[where I = toyShell and r = 0 and e = None and w = toyWorld
      and stmts = "[[Fail ''boom''], [Assign ''X'' ''1'']]"]
  by (simp add: toyShell_def toyWorld_def emit_def added_def lastErr_def)

text \<open>
  The loop as a whole. \<open>runStmts\<close>, \<open>fn\<close>, \<open>Interactive\<close> and \<open>runInteractive\<close> are compared with
  the description of the loop by \<open>inSequence\<close> and \<open>dialogue\<close>.
\<close>

lemma sessionAfter_Nil: "sessionAfter I [] st = st"
  by (simp add: sessionAfter_def)

lemma errorAfter_Nil: "errorAfter I [] st e = e"
  by (simp add: errorAfter_def)

lemma exitedAfter_Nil: "exitedAfter I [] st = False"
  by (simp add: exitedAfter_def)

lemma sessionAfter_Cons:
  "Run I s st = (st', out, err) \<Longrightarrow>
   sessionAfter I (s # ss) st = (if Exited I st' then st' else sessionAfter I ss st')"
  by (simp add: sessionAfter_def)

lemma errorAfter_Cons:
  "Run I s st = (st', out, err) \<Longrightarrow>
   errorAfter I (s # ss) st e = (if Exited I st' then err else errorAfter I ss st' err)"
  by (simp add: errorAfter_def)

lemma exitedAfter_Cons:
  "Run I s st = (st', out, err) \<Longrightarrow>
   exitedAfter I (s # ss) st = (Exited I st' \<or> exitedAfter I ss st')"
  by (auto simp: exitedAfter_def)

lemma exits_batchEvents: "exits (batchEvents I r stmts st) = exitedAfter I stmts st"
proof (induction stmts arbitrary: st)
  case Nil
  then show ?case by (simp add: exitedAfter_Nil)
next
  case (Cons s ss)
  obtain st' out err where R: "Run I s st = (st', out, err)" by (cases "Run I s st") auto
  show ?case using Cons.IH[of st'] R
    by (simp add: exitedAfter_Cons[OF R] exits_append exits_stdout)
qed

lemma ran_batchEvents:
  "ran (batchEvents I r stmts st) = map (\<lambda>(s, err, st'). (r, s, err)) (inSequence I stmts st)"
proof (induction stmts arbitrary: st)
  case Nil
  then show ?case by simp
next
  case (Cons s ss)
  obtain st' out err where R: "Run I s st = (st', out, err)" by (cases "Run I s st") auto
  show ?case using Cons.IH[of st'] R by (simp add: ran_append ran_stdout)
qed

lemma quiet_batchEvents: "quietAfterExit (batchEvents I r stmts st)"
proof (induction stmts arbitrary: st)
  case Nil
  then show ?case by simp
next
  case (Cons s ss)
  obtain st' out err where R: "Run I s st = (st', out, err)" by (cases "Run I s st") auto
  show ?case using Cons.IH[of st'] R
    by (cases "Exited I st'") (simp_all add: quiet_append exits_stdout quiet_stdout)
qed

lemma runStmts_batch:
  "runStmts I r stmts (e, w) =
     (\<not> exitedAfter I stmts (store w r), errorAfter I stmts (store w r) e,
      w\<lparr>store := (store w)(r := sessionAfter I stmts (store w r)),
        trace := trace w @ batchEvents I r stmts (store w r)\<rparr>)"
proof (induction stmts arbitrary: e w)
  case Nil
  then show ?case by (simp add: exitedAfter_Nil errorAfter_Nil sessionAfter_Nil)
next
  case (Cons s ss)
  obtain st' out err where R: "Run I s (store w r) = (st', out, err)"
    by (cases "Run I s (store w r)") auto
  let ?w = "emit (EvRun r s err # map EvStdout out @ [EvExited r (Exited I st')])
              (w\<lparr>store := (store w)(r := st')\<rparr>)"
  have sw: "store ?w r = st'" by (simp add: emit_def)
  show ?case
  proof (cases "Exited I st'")
    case True
    have a: "exitedAfter I (s # ss) (store w r)" using exitedAfter_Cons[OF R] True by simp
    have b: "errorAfter I (s # ss) (store w r) e = err" using errorAfter_Cons[OF R] True by simp
    have c: "sessionAfter I (s # ss) (store w r) = st'" using sessionAfter_Cons[OF R] True by simp
    have d: "batchEvents I r (s # ss) (store w r) =
               EvRun r s err # map EvStdout out @ [EvExited r (Exited I st')]"
      using R True by simp
    have L: "runStmts I r (s # ss) (e, w) = (False, err, ?w)" using R True by simp
    have G: "(\<not> exitedAfter I (s # ss) (store w r), errorAfter I (s # ss) (store w r) e,
        w\<lparr>store := (store w)(r := sessionAfter I (s # ss) (store w r)),
          trace := trace w @ batchEvents I r (s # ss) (store w r)\<rparr>) = (False, err, ?w)"
      by (simp only: a b c d) (simp add: emit_def)
    show ?thesis by (simp only: L G)
  next
    case False
    have a: "exitedAfter I (s # ss) (store w r) = exitedAfter I ss st'"
      using exitedAfter_Cons[OF R] False by simp
    have b: "errorAfter I (s # ss) (store w r) e = errorAfter I ss st' err"
      using errorAfter_Cons[OF R] False by simp
    have c: "sessionAfter I (s # ss) (store w r) = sessionAfter I ss st'"
      using sessionAfter_Cons[OF R] False by simp
    have d: "batchEvents I r (s # ss) (store w r) =
               EvRun r s err # map EvStdout out @ [EvExited r (Exited I st')]
                 @ batchEvents I r ss st'"
      using R False by simp
    have L: "runStmts I r (s # ss) (e, w) = runStmts I r ss (err, ?w)" using R False by simp
    have M: "runStmts I r ss (err, ?w) = (\<not> exitedAfter I ss st', errorAfter I ss st' err,
        ?w\<lparr>store := (store ?w)(r := sessionAfter I ss st'),
          trace := trace ?w @ batchEvents I r ss st'\<rparr>)"
      using Cons.IH[of err ?w] unfolding sw .
    have G: "(\<not> exitedAfter I (s # ss) (store w r), errorAfter I (s # ss) (store w r) e,
        w\<lparr>store := (store w)(r := sessionAfter I (s # ss) (store w r)),
          trace := trace w @ batchEvents I r (s # ss) (store w r)\<rparr>) =
        (\<not> exitedAfter I ss st', errorAfter I ss st' err,
        ?w\<lparr>store := (store ?w)(r := sessionAfter I ss st'),
          trace := trace ?w @ batchEvents I r ss st'\<rparr>)"
      by (simp only: a b c d) (simp add: emit_def)
    show ?thesis by (simp only: L M G)
  qed
qed


lemma after_append:
  "exitedAfter I (xs @ ys) st =
     (exitedAfter I xs st \<or> exitedAfter I ys (sessionAfter I xs st))
   \<and> sessionAfter I (xs @ ys) st =
     (if exitedAfter I xs st then sessionAfter I xs st
      else sessionAfter I ys (sessionAfter I xs st))
   \<and> errorAfter I (xs @ ys) st e =
     (if exitedAfter I xs st then errorAfter I xs st e
      else errorAfter I ys (sessionAfter I xs st) (errorAfter I xs st e))
   \<and> inSequence I (xs @ ys) st =
     inSequence I xs st
       @ (if exitedAfter I xs st then [] else inSequence I ys (sessionAfter I xs st))"
proof (induction xs arbitrary: st e)
  case Nil
  then show ?case by (simp add: exitedAfter_Nil sessionAfter_Nil errorAfter_Nil)
next
  case (Cons x xs)
  obtain st' out err where R: "Run I x st = (st', out, err)" by (cases "Run I x st") auto
  have R': "Run I x st = (st', out, err)" by (rule R)
  show ?case
  proof (cases "Exited I st'")
    case True
    then show ?thesis using R
      by (simp add: exitedAfter_Cons[OF R] sessionAfter_Cons[OF R] errorAfter_Cons[OF R])
  next
    case False
    then show ?thesis using R Cons.IH[of st' err]
      by (simp add: exitedAfter_Cons[OF R] sessionAfter_Cons[OF R] errorAfter_Cons[OF R])
  qed
qed

lemma completed_Cons_True: "completed ((stmts, True) # cs) = completed cs"
  by (simp add: completed_def)

lemma completed_Cons_False: "completed ((stmts, False) # cs) = stmts @ completed cs"
  by (simp add: completed_def)

lemma fn_incomplete:
  "fn I r (stmts, True) (e, w) = (True, e, w\<lparr>trace := trace w @ [EvIncomplete True, EvStdout ''> '']\<rparr>)"
  by (simp add: fn_def emit_def)

lemma fn_complete:
  "fn I r (stmts, False) (e, w) =
     (\<not> exitedAfter I stmts (store w r), errorAfter I stmts (store w r) e,
      w\<lparr>store := (store w)(r := sessionAfter I stmts (store w r)),
        trace := trace w @ EvIncomplete False # batchEvents I r stmts (store w r)
                  @ (if exitedAfter I stmts (store w r) then [] else [EvStdout ''$ ''])\<rparr>)"
  by (simp add: fn_def runStmts_batch emit_def)

lemma dialogue_facts:
  "exits (dialogue I r cs st) = exitedAfter I (completed cs) st
   \<and> ran (dialogue I r cs st) =
       map (\<lambda>(s, err, st'). (r, s, err)) (inSequence I (completed cs) st)
   \<and> quietAfterExit (dialogue I r cs st)"
proof (induction cs arbitrary: st)
  case Nil
  then show ?case by (simp add: completed_def exitedAfter_Nil)
next
  case (Cons c cs)
  obtain stmts inc where c: "c = (stmts, inc)" by (cases c) auto
  show ?case
  proof (cases inc)
    case True
    then show ?thesis using Cons.IH[of st] c by (simp add: completed_Cons_True)
  next
    case False
    note A = after_append[of I stmts "completed cs" st]
    show ?thesis
    proof (cases "exitedAfter I stmts st")
      case True
      then show ?thesis using c False A
        by (simp add: completed_Cons_False exits_append ran_append quiet_append
            exits_batchEvents ran_batchEvents quiet_batchEvents)
    next
      case nx: False
      then show ?thesis using c False A Cons.IH[of "sessionAfter I stmts st"]
        by (simp add: completed_Cons_False exits_append ran_append quiet_append
            exits_batchEvents ran_batchEvents quiet_batchEvents)
    qed
  qed
qed

lemma Interactive_dialogue:
  "Interactive E (fn I r) cs (e, w) =
     ((if exitedAfter I (completed cs) (store w r) then None else readErr E),
      errorAfter I (completed cs) (store w r) e,
      w\<lparr>store := (store w)(r := sessionAfter I (completed cs) (store w r)),
        trace := trace w @ dialogue I r cs (store w r)\<rparr>)"
proof (induction cs arbitrary: e w)
  case Nil
  then show ?case
    by (simp add: completed_def exitedAfter_Nil errorAfter_Nil sessionAfter_Nil)
next
  case (Cons c cs)
  obtain stmts inc where c: "c = (stmts, inc)" by (cases c) auto
  let ?st = "store w r"
  show ?case
  proof (cases inc)
    case True
    let ?w = "w\<lparr>trace := trace w @ [EvRead, EvIncomplete True, EvStdout ''> '']\<rparr>"
    have L: "Interactive E (fn I r) (c # cs) (e, w) = Interactive E (fn I r) cs (e, ?w)"
      using c True by (simp add: fn_incomplete emit_def)
    have M: "Interactive E (fn I r) cs (e, ?w) =
       ((if exitedAfter I (completed cs) (store ?w r) then None else readErr E),
        errorAfter I (completed cs) (store ?w r) e,
        ?w\<lparr>store := (store ?w)(r := sessionAfter I (completed cs) (store ?w r)),
          trace := trace ?w @ dialogue I r cs (store ?w r)\<rparr>)"
      by (rule Cons.IH[of e ?w])
    show ?thesis unfolding L M using c True by (simp add: completed_Cons_True fun_upd_def)
  next
    case False
    note A = after_append[of I stmts "completed cs" ?st e]
    let ?w1 = "emit [EvRead] w"
    have s1: "store ?w1 r = ?st" by (simp add: emit_def)
    show ?thesis
    proof (cases "exitedAfter I stmts ?st")
      case True
      have L: "Interactive E (fn I r) (c # cs) (e, w) =
          (None, errorAfter I stmts ?st e,
           w\<lparr>store := (store w)(r := sessionAfter I stmts ?st),
             trace := trace w @ EvRead # EvIncomplete False # batchEvents I r stmts ?st\<rparr>)"
        using c False True by (simp add: fn_complete emit_def)
      show ?thesis unfolding L using c False True A
        by (simp add: completed_Cons_False fun_upd_def)
    next
      case nx: False
      let ?st2 = "sessionAfter I stmts ?st"
      let ?e2 = "errorAfter I stmts ?st e"
      let ?w2 = "w\<lparr>store := (store w)(r := ?st2),
             trace := trace w @ EvRead # EvIncomplete False # batchEvents I r stmts ?st
                        @ [EvStdout ''$ '']\<rparr>"
      have L: "Interactive E (fn I r) (c # cs) (e, w) = Interactive E (fn I r) cs (?e2, ?w2)"
        using c False nx by (simp add: fn_complete emit_def)
      have M: "Interactive E (fn I r) cs (?e2, ?w2) =
         ((if exitedAfter I (completed cs) (store ?w2 r) then None else readErr E),
          errorAfter I (completed cs) (store ?w2 r) ?e2,
          ?w2\<lparr>store := (store ?w2)(r := sessionAfter I (completed cs) (store ?w2 r)),
            trace := trace ?w2 @ dialogue I r cs (store ?w2 r)\<rparr>)"
        by (rule Cons.IH[of ?e2 ?w2])
      show ?thesis unfolding L M using c False nx A
        by (simp add: completed_Cons_False fun_upd_def cong: if_cong)
    qed
  qed
qed

lemma resets_append: "resets (xs @ ys) = resets xs @ resets ys"
  by (induction xs rule: resets.induct) simp_all

lemma resets_stdout: "resets (map EvStdout out) = []"
  by (induction out) simp_all

lemma resets_batchEvents: "resets (batchEvents I r stmts st) = []"
proof (induction stmts arbitrary: st)
  case Nil
  then show ?case by simp
next
  case (Cons s ss)
  obtain st' out err where R: "Run I s st = (st', out, err)" by (cases "Run I s st") auto
  show ?case using Cons.IH[of st'] R by (simp add: resets_append resets_stdout)
qed

lemma resets_dialogue: "resets (dialogue I r cs st) = []"
proof (induction cs arbitrary: st)
  case Nil
  then show ?case by simp
next
  case (Cons c cs)
  obtain stmts inc where c: "c = (stmts, inc)" by (cases c) auto
  show ?case using Cons.IH c
    by (cases inc) (simp_all add: resets_append resets_batchEvents)
qed

lemma runInteractive_dialogue:
  "runInteractive I E r w =
     ((case (if exitedAfter I (completed (chunks E)) (store w r) then None else readErr E) of
         None \<Rightarrow> errorAfter I (completed (chunks E)) (store w r) None
       | Some m \<Rightarrow> Some (Ordinary m)),
      w\<lparr>store := (store w)(r := sessionAfter I (completed (chunks E)) (store w r)),
        trace := trace w @ EvStdout ''$ '' # dialogue I r (chunks E) (store w r)\<rparr>)"
  by (simp add: runInteractive_def Interactive_dialogue emit_def fun_upd_def
      split: option.splits)

text \<open>
  Claim C8. The events of \<open>runInteractive\<close> are the primary prompt \<open>$ \<close>, written before
  anything is read, followed by the dialogue over the chunks of the input: a chunk the
  parser reports as incomplete is followed by the continuation prompt \<open>> \<close> and the next
  read, with no statement run and the session untouched; a complete chunk is followed
  by the execution of its statements and, unless the interpreter has exited, by the
  primary prompt \<open>$ \<close> before the next read.
\<close>

theorem runInteractive_prompts:
  "trace (snd (runInteractive I E r w)) =
     trace w @ EvStdout ''$ '' # dialogue I r (chunks E) (store w r)"
  by (simp add: runInteractive_dialogue)

theorem runInteractive_prompts_witness:
  "trace (snd (runInteractive toyShell toyTty 0 toyWorld)) =
     [EvStdout ''$ '',
      EvRead, EvIncomplete True, EvStdout ''> '',
      EvRead, EvIncomplete False,
      EvRun 0 [Fail ''boom''] (Some (Ordinary ''boom'')), EvExited 0 False,
      EvRun 0 [Assign ''X'' ''1''] None, EvExited 0 False, EvStdout ''$ '',
      EvRead, EvIncomplete False,
      EvRun 0 [ExitCmd 3] (Some (ExitStatus 3)), EvExited 0 True]"
  using runInteractive_prompts[where I = toyShell and E = toyTty and r = 0 and w = toyWorld]
  by (simp add: toyTty_def toyShell_def toyEnv_def toyWorld_def exitedAfter_def
      sessionAfter_def)

text \<open>
  Claim C9. The statements \<open>runInteractive\<close> runs are those of the complete chunks
  executed in sequence on the one runner \<open>r\<close>, each from the state the one before it left
  and from the state the runner had when the loop started, with no reset; the runner
  is left in the state of the last statement executed. Nothing at all follows the first
  answer true of \<open>r.Exited()\<close>: no statement of that batch and none of a later batch. When
  the loop ends because the interpreter has exited or because the input is exhausted,
  the result is the error of the last statement executed, nil when it returned none or
  when no statement was executed; a read error that ends the input is returned
  instead.
\<close>

theorem runInteractive_session:
  "ran (added w (snd (runInteractive I E r w))) =
     map (\<lambda>(stmt, err, st). (r, stmt, err)) (inSequence I (completed (chunks E)) (store w r))
   \<and> resets (added w (snd (runInteractive I E r w))) = []
   \<and> store (snd (runInteractive I E r w)) =
       (store w)(r := sessionAfter I (completed (chunks E)) (store w r))
   \<and> exits (added w (snd (runInteractive I E r w))) =
       exitedAfter I (completed (chunks E)) (store w r)
   \<and> quietAfterExit (added w (snd (runInteractive I E r w)))
   \<and> fst (runInteractive I E r w) =
       (case (if exitedAfter I (completed (chunks E)) (store w r) then None else readErr E) of
          None \<Rightarrow> errorAfter I (completed (chunks E)) (store w r) None
        | Some m \<Rightarrow> Some (Ordinary m))"
proof -
  let ?d = "EvStdout ''$ '' # dialogue I r (chunks E) (store w r)"
  have a: "added w (snd (runInteractive I E r w)) = ?d"
    by (rule added_append) (simp add: runInteractive_dialogue)
  note D = dialogue_facts[of I r "chunks E" "store w r"]
  have 1: "ran ?d =
     map (\<lambda>(stmt, err, st). (r, stmt, err)) (inSequence I (completed (chunks E)) (store w r))"
    using D by simp
  have 2: "resets ?d = []" by (simp add: resets_dialogue)
  have 3: "store (snd (runInteractive I E r w)) =
       (store w)(r := sessionAfter I (completed (chunks E)) (store w r))"
    by (simp add: runInteractive_dialogue)
  have 4: "exits ?d = exitedAfter I (completed (chunks E)) (store w r)" using D by simp
  have 5: "quietAfterExit ?d" using D by simp
  have 6: "fst (runInteractive I E r w) =
       (case (if exitedAfter I (completed (chunks E)) (store w r) then None else readErr E) of
          None \<Rightarrow> errorAfter I (completed (chunks E)) (store w r) None
        | Some m \<Rightarrow> Some (Ordinary m))"
    by (simp add: runInteractive_dialogue)
  show ?thesis unfolding a by (intro conjI 1 2 3 4 5 6)
qed

theorem runInteractive_session_witness:
  "ran (added toyWorld (snd (runInteractive toyShell toyTty 0 toyWorld))) =
     [(0, [Fail ''boom''], Some (Ordinary ''boom'')), (0, [Assign ''X'' ''1''], None),
      (0, [ExitCmd 3], Some (ExitStatus 3))]
   \<and> store (snd (runInteractive toyShell toyTty 0 toyWorld)) 0 = ([(''X'', ''1'')], True)
   \<and> exits (added toyWorld (snd (runInteractive toyShell toyTty 0 toyWorld)))
   \<and> fst (runInteractive toyShell toyTty 0 toyWorld) = Some (ExitStatus 3)"
  using runInteractive_session[where I = toyShell and E = toyTty and r = 0 and w = toyWorld]
  by (simp add: toyTty_def toyShell_def toyEnv_def toyWorld_def completed_def
      exitedAfter_def sessionAfter_def errorAfter_def)

section \<open>The concurrent runner of main.go: properties\<close>

lemma fst_goBody: "fst (goBody I E p w) = outcome I E p"
  by (simp add: goBody_def outcome_def runPath_def run_def alloc_def emit_def Let_def
      split: sum.splits prod.splits)

lemma gok_addr: "gok I E base p g w \<Longrightarrow> addrOf g = Some a \<Longrightarrow> base \<le> a \<and> a < nextAddr w"
  by (cases g) auto

lemma gstep_own:
  "gok I E base p g w \<Longrightarrow> base \<le> nextAddr w \<Longrightarrow> gstep I E g w = (g', w') \<Longrightarrow>
   gok I E base p g' w'"
  by (cases g) (auto simp: alloc_def emit_def outcome_def split: sum.splits prod.splits)

lemma gstep_next: "gstep I E g w = (g', w') \<Longrightarrow> nextAddr w \<le> nextAddr w'"
  by (cases g) (auto simp: alloc_def emit_def split: sum.splits prod.splits)

lemma gstep_frame:
  "gstep I E g w = (g', w') \<Longrightarrow> a < nextAddr w \<Longrightarrow> addrOf g \<noteq> Some a \<Longrightarrow>
   store w' a = store w a"
  by (cases g) (auto simp: alloc_def emit_def split: sum.splits prod.splits)

lemma gstep_addr:
  "gstep I E g w = (g', w') \<Longrightarrow> addrOf g' = Some a \<Longrightarrow>
   addrOf g = Some a \<or> a = nextAddr w"
  by (cases g) (auto simp: alloc_def emit_def split: sum.splits prod.splits)

lemma gok_frame:
  "gok I E base p g w \<Longrightarrow> nextAddr w \<le> nextAddr w' \<Longrightarrow>
   (\<And>a. addrOf g = Some a \<Longrightarrow> store w' a = store w a) \<Longrightarrow> gok I E base p g w'"
  by (cases g) auto

lemma gstep_not_done: "gstep I E g w = (g', w') \<Longrightarrow> g \<noteq> GDone \<Longrightarrow> g' \<noteq> GDone"
  by (cases g) (auto split: sum.splits prod.splits)

lemma doneOut_keep:
  "t < length gs \<Longrightarrow> length xs = length gs \<Longrightarrow> gs ! t \<noteq> GDone \<Longrightarrow> g' \<noteq> GDone \<Longrightarrow>
   doneOut (gs[t := g']) xs = doneOut gs xs"
proof (induction gs xs arbitrary: t rule: doneOut.induct)
  case (1 g gs x xs)
  then show ?case by (cases t) auto
qed auto

lemma doneOut_done:
  "t < length gs \<Longrightarrow> length xs = length gs \<Longrightarrow> gs ! t \<noteq> GDone \<Longrightarrow>
   doneOut (gs[t := GDone]) xs = doneOut gs xs + {#xs ! t#}"
proof (induction gs xs arbitrary: t rule: doneOut.induct)
  case (1 g gs x xs)
  then show ?case by (cases t) auto
qed auto

lemma doneOut_size: "length xs = length gs \<Longrightarrow> size (doneOut gs xs) \<le> length gs"
proof (induction gs xs rule: doneOut.induct)
  case (1 g gs x xs)
  then show ?case by auto
qed auto

lemma doneOut_full:
  "length xs = length gs \<Longrightarrow> length gs \<le> size (doneOut gs xs) \<Longrightarrow>
   list_all (\<lambda>g. g = GDone) gs \<and> doneOut gs xs = mset xs"
proof (induction gs xs rule: doneOut.induct)
  case (1 g gs x xs)
  have "size (doneOut gs xs) \<le> length gs" using 1 by (simp add: doneOut_size)
  with 1 show ?case by (auto split: if_splits)
qed auto

lemma goStep_threadsOk:
  assumes ok: "threadsOk I E base ps c" and t: "t < length (gos c)"
  shows "threadsOk I E base ps (goStep I E t c)"
proof -
  from ok have len: "length (gos c) = length ps" and b: "base \<le> nextAddr (cworld c)"
    and g: "\<And>u. u < length ps \<Longrightarrow> gok I E base (ps ! u) (gos c ! u) (cworld c)"
    and d: "\<And>u v. u < length ps \<Longrightarrow> v < length ps \<Longrightarrow> u \<noteq> v \<Longrightarrow>
              addrOf (gos c ! u) \<noteq> None \<Longrightarrow> addrOf (gos c ! u) \<noteq> addrOf (gos c ! v)"
    by (auto simp: threadsOk_def)
  show ?thesis
  proof (cases "\<exists>err. gos c ! t = GSend err")
    case True
    then obtain err where s: "gos c ! t = GSend err" by blast
    show ?thesis
    proof (cases "length (errChan c) < length (gos c)")
      case False
      then show ?thesis using ok s by (simp add: goStep_def)
    next
      case True
      then have c': "goStep I E t c = c\<lparr>gos := (gos c)[t := GDone], errChan := errChan c @ [err]\<rparr>"
        using s by (simp add: goStep_def)
      show ?thesis unfolding c' threadsOk_def using len b g d t
        by (auto simp: nth_list_update)
    qed
  next
    case False
    obtain g' w' where st: "gstep I E (gos c ! t) (cworld c) = (g', w')"
      by (cases "gstep I E (gos c ! t) (cworld c)") auto
    have c': "goStep I E t c = c\<lparr>gos := (gos c)[t := g'], cworld := w'\<rparr>"
      using False st by (cases "gos c ! t") (simp_all add: goStep_def)
    have tl: "t < length ps" using t len by simp
    have own: "gok I E base (ps ! t) g' w'" using gstep_own[OF g[OF tl] b st] .
    have nx: "nextAddr (cworld c) \<le> nextAddr w'" using gstep_next[OF st] .
    have oth: "gok I E base (ps ! u) (gos c ! u) w'" if u: "u < length ps" and ne: "u \<noteq> t" for u
    proof (rule gok_frame[OF g[OF u] nx])
      fix a assume a: "addrOf (gos c ! u) = Some a"
      then have "a < nextAddr (cworld c)" using gok_addr[OF g[OF u]] by blast
      moreover have "addrOf (gos c ! t) \<noteq> Some a" using d[OF u tl ne] a by auto
      ultimately show "store w' a = store (cworld c) a" using gstep_frame[OF st] by blast
    qed
    have dt: "addrOf g' \<noteq> addrOf (gos c ! u)" if u: "u < length ps" and ne: "u \<noteq> t"
      and some: "addrOf g' \<noteq> None \<or> addrOf (gos c ! u) \<noteq> None" for u
    proof
      assume eq: "addrOf g' = addrOf (gos c ! u)"
      with some obtain a where a: "addrOf g' = Some a" "addrOf (gos c ! u) = Some a" by auto
      from gok_addr[OF g[OF u] a(2)] have lt: "a < nextAddr (cworld c)" by simp
      from gstep_addr[OF st a(1)] have "addrOf (gos c ! t) = Some a \<or> a = nextAddr (cworld c)" .
      then show False
      proof
        assume "addrOf (gos c ! t) = Some a"
        then show False using d[OF tl u] ne a(2) by auto
      next
        assume "a = nextAddr (cworld c)"
        then show False using lt by simp
      qed
    qed
    have A: "length (gos (goStep I E t c)) = length ps" unfolding c' using len by simp
    have B: "base \<le> nextAddr (cworld (goStep I E t c))" unfolding c' using b nx by simp
    have C: "\<forall>u<length ps. gok I E base (ps ! u) (gos (goStep I E t c) ! u) (cworld (goStep I E t c))"
      unfolding c' using own oth t by (auto simp: nth_list_update)
    have D: "\<forall>u<length ps. \<forall>v<length ps. u \<noteq> v \<longrightarrow> addrOf (gos (goStep I E t c) ! u) \<noteq> None \<longrightarrow>
           addrOf (gos (goStep I E t c) ! u) \<noteq> addrOf (gos (goStep I E t c) ! v)"
    proof (intro allI impI)
      fix u v assume u: "u < length ps" and v: "v < length ps" and ne: "u \<noteq> v"
        and some: "addrOf (gos (goStep I E t c) ! u) \<noteq> None"
      show "addrOf (gos (goStep I E t c) ! u) \<noteq> addrOf (gos (goStep I E t c) ! v)"
      proof (cases "u = t")
        case True
        then have "addrOf g' \<noteq> None" using some t unfolding c' by simp
        then have "addrOf g' \<noteq> addrOf (gos c ! v)" using dt[OF v] ne True by auto
        then show ?thesis unfolding c' using True ne t by simp
      next
        case uf: False
        then have su: "addrOf (gos c ! u) \<noteq> None" using some unfolding c' by simp
        show ?thesis
        proof (cases "v = t")
          case True
          have "addrOf g' \<noteq> addrOf (gos c ! u)" using dt[OF u uf] su by auto
          then show ?thesis unfolding c' using True uf t by (simp add: eq_commute)
        next
          case False
          then show ?thesis unfolding c' using uf d[OF u v ne su] by simp
        qed
      qed
    qed
    show ?thesis unfolding threadsOk_def by (intro conjI A B C D)
  qed
qed

lemma goStep_mainSt: "mainSt (goStep I E t c) = mainSt c"
  by (simp add: goStep_def split: gstate.splits prod.splits)

lemma goStep_length: "length (gos (goStep I E t c)) = length (gos c)"
  by (simp add: goStep_def split: gstate.splits prod.splits)

lemma goStep_acct:
  assumes ok: "threadsOk I E base ps c" and ac: "acct I E ps c" and t: "t < length (gos c)"
    and m: "mainSt c = MLoop i errs"
  shows "acct I E ps (goStep I E t c)"
proof -
  let ?os = "map (outcome I E) ps"
  from ok have len: "length (gos c) = length ps"
    and g: "gok I E base (ps ! t) (gos c ! t) (cworld c)"
    using t by (auto simp: threadsOk_def)
  from ac m have i: "i = length errs" "i \<le> length ps"
    and ms: "mset (errs @ errChan c) = doneOut (gos c) ?os"
    by (auto simp: acct_def)
  have lo: "length ?os = length (gos c)" using len by simp
  show ?thesis
  proof (cases "\<exists>err. gos c ! t = GSend err")
    case True
    then obtain err where s: "gos c ! t = GSend err" by blast
    show ?thesis
    proof (cases "length (errChan c) < length (gos c)")
      case False
      then show ?thesis using ac s by (simp add: goStep_def)
    next
      case True
      then have c': "goStep I E t c = c\<lparr>gos := (gos c)[t := GDone], errChan := errChan c @ [err]\<rparr>"
        using s by (simp add: goStep_def)
      have e: "err = ?os ! t" using g s t len by simp
      have nd: "gos c ! t \<noteq> GDone" using s by simp
      have "doneOut ((gos c)[t := GDone]) ?os = doneOut (gos c) ?os + {#?os ! t#}"
        using doneOut_done[OF t lo nd] .
      then show ?thesis unfolding c' acct_def using m i ms e by simp
    qed
  next
    case False
    obtain g' w' where st: "gstep I E (gos c ! t) (cworld c) = (g', w')"
      by (cases "gstep I E (gos c ! t) (cworld c)") auto
    have c': "goStep I E t c = c\<lparr>gos := (gos c)[t := g'], cworld := w'\<rparr>"
      using False st by (cases "gos c ! t") (simp_all add: goStep_def)
    have "doneOut ((gos c)[t := g']) ?os = doneOut (gos c) ?os"
    proof (cases "gos c ! t = GDone")
      case True
      with st have "g' = GDone" by simp
      then show ?thesis using True by (metis list_update_id)
    next
      case nd: False
      from gstep_not_done[OF st nd] show ?thesis using doneOut_keep[OF t lo nd] by simp
    qed
    then show ?thesis unfolding c' acct_def using m i ms by simp
  qed
qed

lemma mainStep_acct:
  assumes ok: "threadsOk I E base ps c" and ac: "acct I E ps c"
  shows "acct I E ps (mainStep I c)"
proof (cases "mainSt c")
  case (MReturned e)
  then show ?thesis using ac by (simp add: mainStep_def)
next
  case (MLoop i errs)
  let ?os = "map (outcome I E) ps"
  from ok have len: "length (gos c) = length ps" by (simp add: threadsOk_def)
  from ac MLoop have i: "i = length errs" "i \<le> length ps"
    and ms: "mset (errs @ errChan c) = doneOut (gos c) ?os"
    by (auto simp: acct_def)
  have lo: "length ?os = length (gos c)" using len by simp
  show ?thesis
  proof (cases "i < length (gos c)")
    case True
    show ?thesis
    proof (cases "errChan c")
      case Nil
      then show ?thesis using ac MLoop True by (simp add: mainStep_def)
    next
      case (Cons err q)
      then have c': "mainStep I c = c\<lparr>errChan := q, mainSt := MLoop (Suc i) (Add errs err)\<rparr>"
        using MLoop True by (simp add: mainStep_def)
      show ?thesis unfolding c' acct_def using i ms True len Cons by (simp add: Add_def)
    qed
  next
    case False
    then have c': "mainStep I c = c\<lparr>mainSt := MReturned (GetError I errs)\<rparr>"
      using MLoop by (simp add: mainStep_def)
    have iM: "i = length (gos c)" using False i len by simp
    have "size (mset (errs @ errChan c)) = size (doneOut (gos c) ?os)" using ms by simp
    then have sz: "length (gos c) + length (errChan c) = size (doneOut (gos c) ?os)"
      using i iM by simp
    have le: "size (doneOut (gos c) ?os) \<le> length (gos c)" using doneOut_size[OF lo] .
    from sz le have "length (errChan c) = 0" by linarith
    then have ch: "errChan c = []" by simp
    from sz have full: "length (gos c) \<le> size (doneOut (gos c) ?os)" by linarith
    from doneOut_full[OF lo full] have all: "list_all (\<lambda>g. g = GDone) (gos c)"
      and eq: "doneOut (gos c) ?os = mset ?os" by auto
    have "mset errs = mset ?os" using ms ch eq by simp
    then show ?thesis unfolding c' acct_def using all by auto
  qed
qed

lemma mainStep_threadsOk: "threadsOk I E base ps c \<Longrightarrow> threadsOk I E base ps (mainStep I c)"
  by (auto simp: threadsOk_def mainStep_def split: mstate.splits list.splits)

lemma step_inv:
  assumes "concInv I E base ps c"
  shows "concInv I E base ps (step (mainStep I) I E t c)"
proof (cases "mainSt c")
  case (MReturned e)
  then show ?thesis using assms by (simp add: step_def)
next
  case (MLoop i errs)
  show ?thesis
  proof (cases "t < length (gos c)")
    case True
    then have "step (mainStep I) I E t c = goStep I E t c" using MLoop by (simp add: step_def)
    moreover from assms have a: "threadsOk I E base ps c" and b: "acct I E ps c"
      by (simp_all add: concInv_def)
    ultimately show ?thesis
      using goStep_threadsOk[OF a True] goStep_acct[OF a b True MLoop] by (simp add: concInv_def)
  next
    case False
    then have "step (mainStep I) I E t c = mainStep I c" using MLoop by (simp add: step_def)
    moreover from assms have a: "threadsOk I E base ps c" and b: "acct I E ps c"
      by (simp_all add: concInv_def)
    ultimately show ?thesis
      using mainStep_threadsOk[OF a] mainStep_acct[OF a b] by (simp add: concInv_def)
  qed
qed

lemma exec_inv: "concInv I E base ps c \<Longrightarrow> concInv I E base ps (exec (mainStep I) I E sched c)"
  by (induction sched arbitrary: c) (simp_all add: step_inv)

lemma doneOut_GNew: "doneOut (map GNew ps) xs = {#}"
proof (induction ps arbitrary: xs)
  case Nil
  then show ?case by simp
next
  case (Cons p ps)
  then show ?case by (cases xs) simp_all
qed

lemma launch_inv: "concInv I E (nextAddr w) ps (launch (map GNew ps) w)"
  by (simp add: concInv_def threadsOk_def acct_def launch_def doneOut_GNew)

text \<open>
  Progress, for both variants: from any state reached, the schedule \<open>drain\<close> makes every
  goroutine send and the main goroutine return.
\<close>

lemma ndone_Cons: "ndone (g # gs) = (if g = GDone then Suc (ndone gs) else ndone gs)"
  by (simp add: ndone_def)

lemma ndone_Nil: "ndone [] = 0"
  by (simp add: ndone_def)

lemma ndone_le: "ndone gs \<le> length gs"
  by (simp add: ndone_def)

lemma ndone_keep:
  "t < length gs \<Longrightarrow> gs ! t \<noteq> GDone \<Longrightarrow> g' \<noteq> GDone \<Longrightarrow> ndone (gs[t := g']) = ndone gs"
proof (induction gs arbitrary: t)
  case Nil
  then show ?case by simp
next
  case (Cons g gs)
  then show ?case by (cases t) (simp_all add: ndone_Cons)
qed

lemma ndone_done:
  "t < length gs \<Longrightarrow> gs ! t \<noteq> GDone \<Longrightarrow> ndone (gs[t := GDone]) = Suc (ndone gs)"
proof (induction gs arbitrary: t)
  case Nil
  then show ?case by simp
next
  case (Cons g gs)
  then show ?case by (cases t) (simp_all add: ndone_Cons)
qed

lemma ndone_less: "t < length gs \<Longrightarrow> gs ! t \<noteq> GDone \<Longrightarrow> ndone gs < length gs"
proof (induction gs arbitrary: t)
  case Nil
  then show ?case by simp
next
  case (Cons g gs)
  show ?case
  proof (cases t)
    case 0
    with Cons.prems have "g \<noteq> GDone" by simp
    then show ?thesis using ndone_le[of gs] by (simp add: ndone_Cons)
  next
    case (Suc n)
    with Cons have "ndone gs < length gs" by simp
    then show ?thesis by (simp add: ndone_Cons)
  qed
qed

lemma ndone_all: "list_all (\<lambda>g. g = GDone) gs \<Longrightarrow> ndone gs = length gs"
  by (induction gs) (simp_all add: ndone_Cons ndone_Nil)

lemma rank_done: "6 \<le> rank g \<Longrightarrow> g = GDone"
  by (cases g) simp_all

lemma rank_le: "rank g \<le> 6"
  by (cases g) simp_all

lemma gstep_rank:
  "gstep I E g w = (g', w') \<Longrightarrow> rank g \<noteq> 5 \<Longrightarrow> min 6 (Suc (rank g)) \<le> rank g'"
  by (cases g) (auto split: sum.splits prod.splits)

lemma exec_append: "exec ms I E (xs @ ys) c = exec ms I E ys (exec ms I E xs c)"
  by (induction xs arbitrary: c) simp_all

lemma exec_returned: "mainSt c = MReturned e \<Longrightarrow> exec ms I E sched c = c"
  by (induction sched) (simp_all add: step_def)

lemma goStep_other: "u \<noteq> t \<Longrightarrow> gos (goStep I E t c) ! u = gos c ! u"
  by (simp add: goStep_def split: gstate.splits prod.splits)

lemma goStep_cnt:
  assumes c: "cnt c" and m: "mainSt c = MLoop i errs" and t: "t < length (gos c)"
  shows "cnt (goStep I E t c)"
proof (cases "\<exists>err. gos c ! t = GSend err")
  case True
  then obtain err where s: "gos c ! t = GSend err" by blast
  show ?thesis
  proof (cases "length (errChan c) < length (gos c)")
    case False
    then show ?thesis using c s by (simp add: goStep_def)
  next
    case True
    then have c': "goStep I E t c = c\<lparr>gos := (gos c)[t := GDone], errChan := errChan c @ [err]\<rparr>"
      using s by (simp add: goStep_def)
    have nd: "gos c ! t \<noteq> GDone" using s by simp
    show ?thesis unfolding c' cnt_def using c m ndone_done[OF t nd] by (simp add: cnt_def)
  qed
next
  case False
  obtain g' w' where st: "gstep I E (gos c ! t) (cworld c) = (g', w')"
    by (cases "gstep I E (gos c ! t) (cworld c)") auto
  have c': "goStep I E t c = c\<lparr>gos := (gos c)[t := g'], cworld := w'\<rparr>"
    using False st by (cases "gos c ! t") (simp_all add: goStep_def)
  have "ndone ((gos c)[t := g']) = ndone (gos c)"
  proof (cases "gos c ! t = GDone")
    case True
    with st have "g' = GDone" by simp
    then show ?thesis using True by (metis list_update_id)
  next
    case nd: False
    from gstep_not_done[OF st nd] show ?thesis using ndone_keep[OF t nd] by simp
  qed
  then show ?thesis unfolding c' cnt_def using c m by (simp add: cnt_def)
qed

lemma mainStep_cnt:
  assumes "cnt c" and "ms = mainStep I \<or> ms = mainStep_v0 I"
  shows "cnt (ms c) \<and> gos (ms c) = gos c"
  using assms
  by (auto simp: cnt_def mainStep_def mainStep_v0_def split: mstate.splits list.splits)

lemma step_cnt:
  assumes c: "cnt c" and ms: "ms = mainStep I \<or> ms = mainStep_v0 I"
  shows "cnt (step ms I E t c) \<and> length (gos (step ms I E t c)) = length (gos c)"
proof (cases "mainSt c")
  case (MReturned e)
  then show ?thesis using c by (simp add: step_def)
next
  case (MLoop i errs)
  show ?thesis
  proof (cases "t < length (gos c)")
    case True
    then have "step ms I E t c = goStep I E t c" using MLoop by (simp add: step_def)
    then show ?thesis using goStep_cnt[OF c MLoop True] by (simp add: goStep_length)
  next
    case False
    then have "step ms I E t c = ms c" using MLoop by (simp add: step_def)
    then show ?thesis using mainStep_cnt[OF c ms] by simp
  qed
qed

lemma exec_cnt:
  "cnt c \<Longrightarrow> ms = mainStep I \<or> ms = mainStep_v0 I \<Longrightarrow>
   cnt (exec ms I E sched c) \<and> length (gos (exec ms I E sched c)) = length (gos c)"
proof (induction sched arbitrary: c)
  case Nil
  then show ?case by simp
next
  case (Cons t ts)
  from step_cnt[OF Cons.prems] have a: "cnt (step ms I E t c)"
    and b: "length (gos (step ms I E t c)) = length (gos c)" by auto
  from Cons.IH[OF a Cons.prems(2)] b show ?case by simp
qed

lemma goStep_self:
  assumes c: "cnt c" and m: "mainSt c = MLoop i errs" and t: "t < length (gos c)"
  shows "min 6 (Suc (rank (gos c ! t))) \<le> rank (gos (goStep I E t c) ! t)"
proof (cases "\<exists>err. gos c ! t = GSend err")
  case True
  then obtain err where s: "gos c ! t = GSend err" by blast
  have nd: "gos c ! t \<noteq> GDone" using s by simp
  have "i + length (errChan c) = ndone (gos c)" using c m by (simp add: cnt_def)
  then have "length (errChan c) < length (gos c)" using ndone_less[OF t nd] by simp
  then have "goStep I E t c = c\<lparr>gos := (gos c)[t := GDone], errChan := errChan c @ [err]\<rparr>"
    using s by (simp add: goStep_def)
  then show ?thesis using t by simp
next
  case False
  obtain g' w' where st: "gstep I E (gos c ! t) (cworld c) = (g', w')"
    by (cases "gstep I E (gos c ! t) (cworld c)") auto
  have c': "goStep I E t c = c\<lparr>gos := (gos c)[t := g'], cworld := w'\<rparr>"
    using False st by (cases "gos c ! t") (simp_all add: goStep_def)
  have "rank (gos c ! t) \<noteq> 5" using False by (cases "gos c ! t") simp_all
  from gstep_rank[OF st this] show ?thesis unfolding c' using t by simp
qed

lemma goStep_mono:
  assumes c: "cnt c" and m: "mainSt c = MLoop i errs" and t: "t < length (gos c)"
  shows "rank (gos c ! u) \<le> rank (gos (goStep I E t c) ! u)"
proof (cases "u = t")
  case True
  have "rank (gos c ! t) \<le> min 6 (Suc (rank (gos c ! t)))"
    using rank_le[of "gos c ! t"] by (simp add: min_def)
  also have "\<dots> \<le> rank (gos (goStep I E t c) ! t)" using goStep_self[OF c m t] .
  finally show ?thesis using True by simp
next
  case False
  then show ?thesis by (simp add: goStep_other)
qed

lemma round_rank:
  assumes "cnt c" and "mainSt c = MLoop i errs" and "\<forall>t\<in>set ts. t < length (gos c)"
    and ms: "ms = mainStep I \<or> ms = mainStep_v0 I"
  shows "mainSt (exec ms I E ts c) = MLoop i errs
     \<and> (\<forall>u. rank (gos c ! u) \<le> rank (gos (exec ms I E ts c) ! u))
     \<and> (\<forall>u\<in>set ts. min 6 (Suc (rank (gos c ! u))) \<le> rank (gos (exec ms I E ts c) ! u))"
  using assms(1-3)
proof (induction ts arbitrary: c)
  case Nil
  then show ?case by simp
next
  case (Cons t ts)
  have t: "t < length (gos c)" using Cons.prems(3) by simp
  let ?c = "step ms I E t c"
  have sc: "?c = goStep I E t c" using Cons.prems(2) t by (simp add: step_def)
  from step_cnt[OF Cons.prems(1) ms] have cn: "cnt ?c" and len: "length (gos ?c) = length (gos c)"
    by auto
  have m: "mainSt ?c = MLoop i errs" unfolding sc using Cons.prems(2) by (simp add: goStep_mainSt)
  have ts: "\<forall>t\<in>set ts. t < length (gos ?c)" using Cons.prems(3) len by simp
  from Cons.IH[OF cn m ts] have
    B: "mainSt (exec ms I E ts ?c) = MLoop i errs"
    and C: "\<And>u. rank (gos ?c ! u) \<le> rank (gos (exec ms I E ts ?c) ! u)"
    and D: "\<And>u. u \<in> set ts \<Longrightarrow> min 6 (Suc (rank (gos ?c ! u))) \<le> rank (gos (exec ms I E ts ?c) ! u)"
    by auto
  have mono: "\<And>u. rank (gos c ! u) \<le> rank (gos ?c ! u)"
    unfolding sc using goStep_mono[OF Cons.prems(1) Cons.prems(2) t] .
  have self: "min 6 (Suc (rank (gos c ! t))) \<le> rank (gos ?c ! t)"
    unfolding sc using goStep_self[OF Cons.prems(1) Cons.prems(2) t] .
  have C': "\<forall>u. rank (gos c ! u) \<le> rank (gos (exec ms I E (t # ts) c) ! u)"
    using mono C by (auto intro: order_trans)
  have D': "\<forall>u\<in>set (t # ts). min 6 (Suc (rank (gos c ! u)))
              \<le> rank (gos (exec ms I E (t # ts) c) ! u)"
  proof
    fix u assume "u \<in> set (t # ts)"
    then consider "u = t" | "u \<in> set ts" by auto
    then show "min 6 (Suc (rank (gos c ! u))) \<le> rank (gos (exec ms I E (t # ts) c) ! u)"
    proof cases
      case 1
      then show ?thesis using self C[of t] by simp
    next
      case 2
      have "min 6 (Suc (rank (gos c ! u))) \<le> min 6 (Suc (rank (gos ?c ! u)))"
        using mono[of u] by simp
      then show ?thesis using D[OF 2] by simp
    qed
  qed
  show ?case using B C' D' by simp
qed

lemma rounds_rank:
  assumes "cnt c" and "mainSt c = MLoop i errs" and "length (gos c) = M"
    and ms: "ms = mainStep I \<or> ms = mainStep_v0 I"
  shows "mainSt (exec ms I E (concat (replicate k [0..<M])) c) = MLoop i errs
     \<and> (\<forall>u<M. min 6 (k + rank (gos c ! u))
           \<le> rank (gos (exec ms I E (concat (replicate k [0..<M])) c) ! u))"
  using assms(1-3)
proof (induction k arbitrary: c)
  case 0
  then show ?case by (simp add: rank_le)
next
  case (Suc k)
  let ?c = "exec ms I E [0..<M] c"
  have ts: "\<forall>t\<in>set [0..<M]. t < length (gos c)" using Suc.prems(3) by simp
  from round_rank[OF Suc.prems(1) Suc.prems(2) ts ms] have
    B: "mainSt ?c = MLoop i errs"
    and D: "\<And>u. u < M \<Longrightarrow> min 6 (Suc (rank (gos c ! u))) \<le> rank (gos ?c ! u)"
    by auto
  from exec_cnt[OF Suc.prems(1) ms] have A: "cnt ?c" and L: "length (gos ?c) = M"
    using Suc.prems(3) by auto
  let ?r = "concat (replicate k [0..<M])"
  from Suc.IH[OF A B L] have
    B': "mainSt (exec ms I E ?r ?c) = MLoop i errs"
    and C': "\<And>u. u < M \<Longrightarrow> min 6 (k + rank (gos ?c ! u)) \<le> rank (gos (exec ms I E ?r ?c) ! u)"
    by auto
  have E: "exec ms I E (concat (replicate (Suc k) [0..<M])) c = exec ms I E ?r ?c"
    by (simp add: exec_append)
  have F: "\<forall>u<M. min 6 (Suc k + rank (gos c ! u)) \<le> rank (gos (exec ms I E ?r ?c) ! u)"
  proof (intro allI impI)
    fix u assume u: "u < M"
    have "min 6 (Suc k + rank (gos c ! u)) \<le> min 6 (k + rank (gos ?c ! u))"
      using D[OF u] by (simp add: min_def split: if_splits)
    then show "min 6 (Suc k + rank (gos c ! u)) \<le> rank (gos (exec ms I E ?r ?c) ! u)"
      using C'[OF u] by (rule order_trans)
  qed
  show ?case unfolding E using B' F by simp
qed

lemma main_progress:
  assumes c: "cnt c" and ad: "list_all (\<lambda>g. g = GDone) (gos c)"
    and ms: "ms = mainStep I \<or> ms = mainStep_v0 I"
  shows "gos (step ms I E (length (gos c)) c) = gos c
     \<and> min (Suc (length (gos c))) (Suc (progress c))
         \<le> progress (step ms I E (length (gos c)) c)"
proof (cases "mainSt c")
  case (MReturned e)
  then show ?thesis by (simp add: step_def progress_def)
next
  case (MLoop i errs)
  from c MLoop have i: "i \<le> length (gos c)" and "i + length (errChan c) = ndone (gos c)"
    by (auto simp: cnt_def)
  then have sz: "i + length (errChan c) = length (gos c)" using ndone_all[OF ad] by simp
  have sc: "step ms I E (length (gos c)) c = ms c" using MLoop by (simp add: step_def)
  show ?thesis
  proof (cases "i < length (gos c)")
    case True
    then have "errChan c \<noteq> []" using sz by auto
    then obtain err q where "errChan c = err # q" by (cases "errChan c") auto
    then show ?thesis unfolding sc using MLoop True ms
      by (auto simp: mainStep_def mainStep_v0_def progress_def)
  next
    case False
    then show ?thesis unfolding sc using MLoop i ms
      by (auto simp: mainStep_def mainStep_v0_def progress_def)
  qed
qed

lemma mains_progress:
  assumes "cnt c" and "list_all (\<lambda>g. g = GDone) (gos c)" and "length (gos c) = M"
    and ms: "ms = mainStep I \<or> ms = mainStep_v0 I"
  shows "min (Suc M) (k + progress c) \<le> progress (exec ms I E (replicate k M) c)"
  using assms(1-3)
proof (induction k arbitrary: c)
  case 0
  then show ?case by simp
next
  case (Suc k)
  let ?c = "step ms I E M c"
  from step_cnt[OF Suc.prems(1) ms] have cn: "cnt ?c" and len: "length (gos ?c) = M"
    using Suc.prems(3) by auto
  from main_progress[OF Suc.prems(1) Suc.prems(2) ms] have g: "gos ?c = gos c"
    and p: "min (Suc M) (Suc (progress c)) \<le> progress ?c" using Suc.prems(3) by auto
  have ad: "list_all (\<lambda>g. g = GDone) (gos ?c)" using Suc.prems(2) g by simp
  have "min (Suc M) (Suc k + progress c) \<le> min (Suc M) (k + progress ?c)"
    using p by (simp add: min_def split: if_splits)
  also have "\<dots> \<le> progress (exec ms I E (replicate k M) ?c)"
    using Suc.IH[OF cn ad len] .
  finally show ?case by simp
qed

lemma drain_returns:
  assumes c: "cnt c" and ms: "ms = mainStep I \<or> ms = mainStep_v0 I"
  shows "\<exists>e. mainSt (exec ms I E (drain (length (gos c))) c) = MReturned e"
proof (cases "mainSt c")
  case (MReturned e)
  then show ?thesis by (simp add: exec_returned)
next
  case (MLoop i errs)
  let ?M = "length (gos c)"
  let ?r = "concat (replicate 6 [0..<?M])"
  let ?c = "exec ms I E ?r c"
  from rounds_rank[OF c MLoop refl ms, where k = 6 and E = E] have
    R: "\<And>u. u < ?M \<Longrightarrow> 6 \<le> rank (gos ?c ! u)"
    by auto
  from exec_cnt[OF c ms, where E = E and sched = ?r]
  have A: "cnt ?c" and len: "length (gos ?c) = ?M" by (simp_all only:)
  have ad: "list_all (\<lambda>g. g = GDone) (gos ?c)"
    unfolding list_all_length using R len rank_done by auto
  let ?d = "exec ms I E (replicate (Suc ?M) ?M) ?c"
  from mains_progress[OF A ad len ms, where k = "Suc ?M" and E = E] have P: "Suc ?M \<le> progress ?d"
    by simp
  from exec_cnt[OF A ms, where E = E and sched = "replicate (Suc ?M) ?M"]
  have cd: "cnt ?d" and ld: "length (gos ?d) = ?M" using len by (simp_all only:)
  have "\<exists>e. mainSt ?d = MReturned e"
  proof (cases "mainSt ?d")
    case (MReturned e)
    then show ?thesis by simp
  next
    case (MLoop j es)
    with cd have "j \<le> ?M" using ld by (simp add: cnt_def)
    moreover from P MLoop have "Suc ?M \<le> j" by (simp add: progress_def)
    ultimately show ?thesis by simp
  qed
  moreover have "exec ms I E (drain ?M) c = ?d"
    by (simp only: drain_def exec_append)
  ultimately show ?thesis by simp
qed

lemma launch_cnt: "list_all (\<lambda>g. g \<noteq> GDone) gs \<Longrightarrow> cnt (launch gs w)"
  by (induction gs) (simp_all add: cnt_def launch_def ndone_Cons ndone_Nil)

lemma launched_returns:
  assumes "list_all (\<lambda>g. g \<noteq> GDone) gs" and ms: "ms = mainStep I \<or> ms = mainStep_v0 I"
  shows "\<exists>res. finish (exec ms I E (sched @ drain (length gs)) (launch gs w)) = Some res"
proof -
  let ?c = "exec ms I E sched (launch gs w)"
  from exec_cnt[OF launch_cnt[OF assms(1)] ms] have c: "cnt ?c"
    and len: "length (gos ?c) = length gs" by (auto simp: launch_def)
  from drain_returns[OF c ms, where E = E] len obtain e where
    "mainSt (exec ms I E (drain (length gs)) ?c) = MReturned e" by auto
  then show ?thesis by (simp add: finish_def exec_append)
qed

lemma runConc_returns:
  "\<exists>errs w'. runConc I E ps sched w = Some (GetError I errs, w')
     \<and> mset errs = mset (map (outcome I E) ps)"
proof -
  let ?c = "exec (mainStep I) I E (sched @ drain (length ps)) (launch (map GNew ps) w)"
  have "list_all (\<lambda>g. g \<noteq> GDone) (map GNew ps)" by (induction ps) simp_all
  from launched_returns[OF this, where ms = "mainStep I" and I = I and E = E and sched = sched and w = w] obtain res
    where r: "finish ?c = Some res" by auto
  then obtain e where m: "mainSt ?c = MReturned e"
    by (auto simp: finish_def split: mstate.splits)
  have "concInv I E (nextAddr w) ps ?c" using exec_inv[OF launch_inv] .
  with m obtain errs where "e = GetError I errs" "mset errs = mset (map (outcome I E) ps)"
    by (auto simp: concInv_def acct_def)
  then show ?thesis using m by (auto simp: runConc_def finish_def)
qed

lemma runConc_v0_returns: "\<exists>res. runConc_v0 I E r ps sched w = Some res"
proof -
  have "list_all (\<lambda>g. g \<noteq> GDone) (map (GOpen r) ps)" by (induction ps) simp_all
  from launched_returns[OF this, where ms = "mainStep_v0 I" and I = I and E = E and sched = sched and w = w] show ?thesis
    by (simp add: runConc_v0_def)
qed

lemma runConc_reachable:
  "concInv I E (nextAddr w) ps (exec (mainStep I) I E sched (launch (map GNew ps) w))"
  using exec_inv[OF launch_inv] .

text \<open>
  main.go, for every schedule: when the concurrent part returns, every goroutine has
  sent, and the error returned is \<open>GetError\<close> of exactly one outcome per script, each the
  outcome of that script run alone, in the order received.
\<close>

theorem runConc_waits_for_all:
  assumes "mainSt (exec (mainStep I) I E sched (launch (map GNew ps) w)) = MReturned e"
  shows "list_all (\<lambda>g. g = GDone) (gos (exec (mainStep I) I E sched (launch (map GNew ps) w)))
     \<and> (\<exists>errs. length errs = length ps \<and> e = GetError I errs
           \<and> mset errs = mset (map (outcome I E) ps))"
proof -
  let ?c = "exec (mainStep I) I E sched (launch (map GNew ps) w)"
  from runConc_reachable[of I E w ps sched] assms
  have a: "list_all (\<lambda>g. g = GDone) (gos ?c)"
    and "\<exists>errs. e = GetError I errs \<and> mset errs = mset (map (outcome I E) ps)"
    by (auto simp: concInv_def acct_def)
  then obtain errs where e: "e = GetError I errs" "mset errs = mset (map (outcome I E) ps)"
    by blast
  from e(2) have "length errs = length ps" by (metis length_map size_mset)
  with a e show ?thesis by blast
qed

text \<open>
  main.go, for every schedule and every goroutine: the runner it runs its program on was
  made by its own \<open>interp.New\<close> (its address is not below the first free address at
  launch, so it is not the sequential runner), it is in the reset state of a new runner
  when the program starts, no other goroutine holds it, and the error the goroutine
  sends is the one its body returns when run alone from any world.
\<close>

theorem runConc_isolated:
  assumes t: "t < length ps"
  shows "(gos (exec (mainStep I) I E sched (launch (map GNew ps) w)) ! t = GRun a prog \<longrightarrow>
            nextAddr w \<le> a
            \<and> (\<exists>rn. New I = Inr rn
                  \<and> store (cworld (exec (mainStep I) I E sched (launch (map GNew ps) w))) a = Reset I rn))
     \<and> (\<forall>u<length ps. u \<noteq> t \<longrightarrow>
            addrOf (gos (exec (mainStep I) I E sched (launch (map GNew ps) w)) ! t) \<noteq> None \<longrightarrow>
            addrOf (gos (exec (mainStep I) I E sched (launch (map GNew ps) w)) ! u)
              \<noteq> addrOf (gos (exec (mainStep I) I E sched (launch (map GNew ps) w)) ! t))
     \<and> (gos (exec (mainStep I) I E sched (launch (map GNew ps) w)) ! t = GSend err \<longrightarrow>
            err = fst (goBody I E (ps ! t) w'))"
proof -
  let ?c = "exec (mainStep I) I E sched (launch (map GNew ps) w)"
  from runConc_reachable[of I E w ps sched]
  have g: "gok I E (nextAddr w) (ps ! t) (gos ?c ! t) (cworld ?c)"
    and d: "\<And>u. u < length ps \<Longrightarrow> t \<noteq> u \<Longrightarrow> addrOf (gos ?c ! t) \<noteq> None \<Longrightarrow>
              addrOf (gos ?c ! t) \<noteq> addrOf (gos ?c ! u)"
    using t by (auto simp: concInv_def threadsOk_def)
  have A: "gos ?c ! t = GRun a prog \<longrightarrow>
            nextAddr w \<le> a \<and> (\<exists>rn. New I = Inr rn \<and> store (cworld ?c) a = Reset I rn)"
    using g by auto
  have B: "\<forall>u<length ps. u \<noteq> t \<longrightarrow> addrOf (gos ?c ! t) \<noteq> None \<longrightarrow>
            addrOf (gos ?c ! u) \<noteq> addrOf (gos ?c ! t)"
    using d by (metis)
  have C: "gos ?c ! t = GSend err \<longrightarrow> err = fst (goBody I E (ps ! t) w')"
    using g by (auto simp: fst_goBody)
  show ?thesis by (intro conjI A B C)
qed

text \<open>\<open>runAll\<close> of main.go always returns.\<close>

lemma runAll_returns: "\<exists>res. runAll I E cl sched w = Some res"
proof -
  have "\<exists>res. runConc I E ps sched w2 = Some res" for ps w2
    using runConc_returns[of I E ps sched w2] by blast
  then show ?thesis
    by (simp add: runAll_def Let_def split: sum.splits prod.splits option.splits)
qed

text \<open>\<open>runAll\<close> of part_000 always returns.\<close>

lemma runAll_v0_returns: "\<exists>res. runAll_v0 I E cl sched w = Some res"
proof -
  have "\<exists>res. runConc_v0 I E r ps sched w2 = Some res" for r ps w2
    using runConc_v0_returns[of I E r ps sched w2] by blast
  then show ?thesis
    by (simp add: runAll_v0_def Let_def split: sum.splits prod.splits option.splits)
qed

section \<open>The mode of execution: properties\<close>

text \<open>
  The branch each variant takes, in terms of the command line. main.go reads standard
  input only when there is no positional argument and no flag at all; part_000 reads it
  whenever there is no positional argument, whatever \<open>-a\<close> holds.
\<close>

lemma concArgs_flags: "aFlags cl = [] \<Longrightarrow> concArgs cl = [] \<and> asyncArgs cl = []"
  by (simp add: concArgs_def asyncArgs_def)

lemma runAll_mode:
  "New I = Inr rn \<Longrightarrow>
   runAll I E cl sched w =
     (if command cl \<noteq> [] then Some (run I (nextAddr w) (command cl) [] (alloc rn w))
      else if args cl = [] \<and> cFlag cl = None \<and> aFlags cl = [] then
        (if isTerminal E then Some (runInteractive I E (nextAddr w) (alloc rn w))
         else Some (run I (nextAddr w) (stdin E) [] (alloc rn w)))
      else
        (case runPaths I E (nextAddr w) (args cl) (alloc rn w) of
           (Some err, w2) \<Rightarrow> Some (Some err, w2)
         | (None, w2) \<Rightarrow> runConc I E (concArgs cl) sched w2))"
  by (simp add: runAll_def NArg_def NFlag_def Let_def)

lemma runAll_v0_mode:
  "New I = Inr rn \<Longrightarrow>
   runAll_v0 I E cl sched w =
     (if command cl \<noteq> [] then Some (run I (nextAddr w) (command cl) [] (alloc rn w))
      else if args cl = [] then
        (if isTerminal E then Some (runInteractive I E (nextAddr w) (alloc rn w))
         else Some (run I (nextAddr w) (stdin E) [] (alloc rn w)))
      else
        (case runPaths I E (nextAddr w) (args cl) (alloc rn w) of
           (Some err, w2) \<Rightarrow> Some (Some err, w2)
         | (None, w2) \<Rightarrow> runConc_v0 I E (nextAddr w) (asyncArgs cl) sched w2))"
  by (simp add: runAll_v0_def NArg_def Let_def)

section \<open>Runs of part_000 that differ from main.go\<close>

lemmas toy_defs = toyShell_def toyEnv_def toyFiles_def toyParse_def toyWorld_def

lemmas host_defs = runAll_v0_def runAll_def runConc_v0_def runConc_def launch_def finish_def
  command_def NArg_def NFlag_def asyncArgs_def concArgs_def arrayFlags_Set_def
  arrayFlags_Set_v0_def runPath_def run_def alloc_def emit_def
  step_def goStep_def mainStep_def mainStep_v0_def Add_def GetError_def

text \<open>
  Claim C1. In part_000 every goroutine runs on the runner \<open>r\<close> of the sequential part.
  With the scripts \<open>X=1\<close> (a.sh) and \<open>echo $X\<close> (b.sh) run concurrently, after one
  sequential script, and a schedule in which both goroutines reset the runner before
  a.sh runs, b.sh prints \<open>1\<close>: it sees the variable its sibling assigned. On the same
  input and the same interleaving main.go gives each script a runner of its own
  (addresses 1 and 2) and b.sh prints an empty line.
\<close>

theorem runAll_v0_shared_session:
  "map_option (\<lambda>(e, w). (e, trace w))
     (runAll_v0 toyShell toyEnv \<lparr>cFlag = None, aFlags = [''a.sh'', ''b.sh''], args = [''empty.sh'']\<rparr>
        [0, 0, 0, 1, 1, 1, 0, 1, 0, 1, 2, 2, 2] toyWorld) =
   Some (None,
     [EvNew 0, EvOpen ''empty.sh'', EvParse ''empty.sh'', EvReset 0, EvRun 0 [] None,
      EvOpen ''a.sh'', EvParse ''a.sh'', EvReset 0,
      EvOpen ''b.sh'', EvParse ''b.sh'', EvReset 0,
      EvRun 0 [Assign ''X'' ''1''] None,
      EvRun 0 [Echo ''X''] None, EvStdout [CHR ''1'', CHR 0x0A]])
   \<and> map_option (\<lambda>(e, w). (e, trace w))
     (runAll toyShell toyEnv \<lparr>cFlag = None, aFlags = [''a.sh,b.sh''], args = [''empty.sh'']\<rparr>
        [0, 0, 0, 0, 1, 1, 1, 1, 0, 1, 0, 1, 2, 2, 2] toyWorld) =
   Some (None,
     [EvNew 0, EvOpen ''empty.sh'', EvParse ''empty.sh'', EvReset 0, EvRun 0 [] None,
      EvNew 1, EvOpen ''a.sh'', EvParse ''a.sh'', EvReset 1,
      EvNew 2, EvOpen ''b.sh'', EvParse ''b.sh'', EvReset 2,
      EvRun 1 [Assign ''X'' ''1''] None,
      EvRun 2 [Echo ''X''] None, EvStdout [CHR 0x0A]])"
  by (simp add: host_defs toy_defs exec_append exec_returned)

text \<open>
  Claim C2. In part_000 the receive loop returns the first error it receives. With the
  concurrent scripts bad.sh (a syntax error) and a.sh, once bad.sh has reported,
  \<open>runAll\<close> returns its error while the goroutine of a.sh has not made a step: a.sh is
  never opened and never reports.
\<close>

theorem runAll_v0_returns_early:
  "map_option (\<lambda>(e, w). (e, opened (trace w)))
     (runAll_v0 toyShell toyEnv \<lparr>cFlag = None, aFlags = [''bad.sh'', ''a.sh''], args = [''empty.sh'']\<rparr>
        [0, 0, 0, 2] toyWorld) =
   Some (Some (Ordinary ''bad.sh: syntax error''), [''empty.sh'', ''bad.sh''])
   \<and> gos (exec (mainStep_v0 toyShell) toyShell toyEnv [0, 0, 0, 2]
         (launch (map (GOpen 0) [''bad.sh'', ''a.sh'']) toyWorld)) = [GDone, GOpen 0 ''a.sh'']
   \<and> mainSt (exec (mainStep_v0 toyShell) toyShell toyEnv [0, 0, 0, 2]
         (launch (map (GOpen 0) [''bad.sh'', ''a.sh'']) toyWorld)) =
       MReturned (Some (Ordinary ''bad.sh: syntax error''))"
  by (simp add: host_defs toy_defs exec_append exec_returned)

text \<open>
  Claim C7. With no positional argument and the concurrent list \<open>-a a.sh\<close>, part_000
  runs standard input (here empty) as a script and never opens a.sh; main.go, on the
  same command line, runs a.sh concurrently.
\<close>

theorem runAll_v0_ignores_concurrent_list:
  "map_option (\<lambda>(e, w). (e, trace w))
     (runAll_v0 toyShell toyEnv \<lparr>cFlag = None, aFlags = [''a.sh''], args = []\<rparr> [] toyWorld) =
   Some (None, [EvNew 0, EvParse [], EvReset 0, EvRun 0 [] None])
   \<and> map_option (\<lambda>(e, w). (e, trace w))
     (runAll toyShell toyEnv \<lparr>cFlag = None, aFlags = [''a.sh''], args = []\<rparr>
        [0, 0, 0, 0, 0, 0, 1, 1] toyWorld) =
   Some (None, [EvNew 0, EvNew 1, EvOpen ''a.sh'', EvParse ''a.sh'', EvReset 1,
                EvRun 1 [Assign ''X'' ''1''] None])"
  by (simp add: host_defs toy_defs exec_append exec_returned)

section \<open>The exit status: properties\<close>

text \<open>
  Claim C5. In both variants \<open>runAll\<close> returns and \<open>main\<close> ends the process with a
  status determined by the error returned: an
  \<open>ExitStatus e\<close> exits with exactly \<open>e\<close> and \<open>main\<close> writes nothing; any other error is
  written to standard error, followed by a newline, and the exit status is 1; nil is
  exit status 0 with nothing written. For the command line \<open>-c "exit 7"\<close>, when the
  interpreter answers \<open>exit 7\<close> with \<open>ExitStatus 7\<close>, the process exits with 7 and the
  trace holds no write to standard error.
\<close>

theorem main_exit_status:
  "(\<exists>code w'. main I E cl sched w = Some (code, w'))
   \<and> (\<exists>code w'. main_v0 I E cl sched w = Some (code, w'))
   \<and> main I E cl sched w =
     (case runAll I E cl sched w of
        None \<Rightarrow> None
      | Some (Some (ExitStatus e), w') \<Rightarrow> Some (uint e, w')
      | Some (Some (Ordinary m), w') \<Rightarrow> Some (1, w'\<lparr>trace := trace w' @ [EvStderr (m @ [CHR 0x0A])]\<rparr>)
      | Some (None, w') \<Rightarrow> Some (0, w'))
   \<and> main_v0 I E cl sched w =
     (case runAll_v0 I E cl sched w of
        None \<Rightarrow> None
      | Some (Some (ExitStatus e), w') \<Rightarrow> Some (uint e, w')
      | Some (Some (Ordinary m), w') \<Rightarrow> Some (1, w'\<lparr>trace := trace w' @ [EvStderr (m @ [CHR 0x0A])]\<rparr>)
      | Some (None, w') \<Rightarrow> Some (0, w'))
   \<and> (New I = Inr rn \<and> Parse I ''exit 7'' [] = Inr prog
        \<and> Run I prog (Reset I rn) = (st, out, Some (ExitStatus 7))
      \<longrightarrow> main I E \<lparr>cFlag = Some ''exit 7'', aFlags = as, args = ps\<rparr> sched w =
            Some (7, w\<lparr>store := (store w)(nextAddr w := st), nextAddr := Suc (nextAddr w),
                       trace := trace w @ [EvNew (nextAddr w), EvParse [], EvReset (nextAddr w),
                         EvRun (nextAddr w) prog (Some (ExitStatus 7))] @ map EvStdout out\<rparr>)
          \<and> main_v0 I E \<lparr>cFlag = Some ''exit 7'', aFlags = as, args = ps\<rparr> sched w =
            Some (7, w\<lparr>store := (store w)(nextAddr w := st), nextAddr := Suc (nextAddr w),
                       trace := trace w @ [EvNew (nextAddr w), EvParse [], EvReset (nextAddr w),
                         EvRun (nextAddr w) prog (Some (ExitStatus 7))] @ map EvStdout out\<rparr>))"
proof -
  have t: "\<exists>code w'. main I E cl sched w = Some (code, w')"
    using runAll_returns[of I E cl sched w] by (cases "exitWith I (the (runAll I E cl sched w))")
      (auto simp: main_def)
  have u: "\<exists>code w'. main_v0 I E cl sched w = Some (code, w')"
    using runAll_v0_returns[of I E cl sched w]
    by (cases "exitWith I (the (runAll_v0 I E cl sched w))") (auto simp: main_v0_def)
  have a: "main I E cl sched w =
     (case runAll I E cl sched w of
        None \<Rightarrow> None
      | Some (Some (ExitStatus e), w') \<Rightarrow> Some (uint e, w')
      | Some (Some (Ordinary m), w') \<Rightarrow> Some (1, w'\<lparr>trace := trace w' @ [EvStderr (m @ [CHR 0x0A])]\<rparr>)
      | Some (None, w') \<Rightarrow> Some (0, w'))"
    by (simp add: main_def emit_def split: option.splits prod.splits error.splits)
  have b: "main_v0 I E cl sched w =
     (case runAll_v0 I E cl sched w of
        None \<Rightarrow> None
      | Some (Some (ExitStatus e), w') \<Rightarrow> Some (uint e, w')
      | Some (Some (Ordinary m), w') \<Rightarrow> Some (1, w'\<lparr>trace := trace w' @ [EvStderr (m @ [CHR 0x0A])]\<rparr>)
      | Some (None, w') \<Rightarrow> Some (0, w'))"
    by (simp add: main_v0_def emit_def split: option.splits prod.splits error.splits)
  have c: "New I = Inr rn \<and> Parse I ''exit 7'' [] = Inr prog
        \<and> Run I prog (Reset I rn) = (st, out, Some (ExitStatus 7))
      \<longrightarrow> main I E \<lparr>cFlag = Some ''exit 7'', aFlags = as, args = ps\<rparr> sched w =
            Some (7, w\<lparr>store := (store w)(nextAddr w := st), nextAddr := Suc (nextAddr w),
                       trace := trace w @ [EvNew (nextAddr w), EvParse [], EvReset (nextAddr w),
                         EvRun (nextAddr w) prog (Some (ExitStatus 7))] @ map EvStdout out\<rparr>)
          \<and> main_v0 I E \<lparr>cFlag = Some ''exit 7'', aFlags = as, args = ps\<rparr> sched w =
            Some (7, w\<lparr>store := (store w)(nextAddr w := st), nextAddr := Suc (nextAddr w),
                       trace := trace w @ [EvNew (nextAddr w), EvParse [], EvReset (nextAddr w),
                         EvRun (nextAddr w) prog (Some (ExitStatus 7))] @ map EvStdout out\<rparr>)"
    by (simp add: main_def main_v0_def runAll_def runAll_v0_def command_def run_def alloc_def emit_def Let_def)
  show ?thesis by (intro conjI t u a b c)
qed

theorem main_exit_status_witness:
  "main toyShell toyEnv \<lparr>cFlag = Some ''exit 7'', aFlags = [], args = []\<rparr> [] toyWorld =
     Some (7, \<lparr>store = (\<lambda>a. ([], False))(0 := ([], True)), nextAddr = 1,
               trace = [EvNew 0, EvParse [], EvReset 0, EvRun 0 [ExitCmd 7] (Some (ExitStatus 7))]\<rparr>)
   \<and> main_v0 toyShell toyEnv \<lparr>cFlag = Some ''exit 7'', aFlags = [], args = []\<rparr> [] toyWorld =
     Some (7, \<lparr>store = (\<lambda>a. ([], False))(0 := ([], True)), nextAddr = 1,
               trace = [EvNew 0, EvParse [], EvReset 0, EvRun 0 [ExitCmd 7] (Some (ExitStatus 7))]\<rparr>)"
  using main_exit_status[where I = toyShell and E = toyEnv and w = toyWorld and sched = "[]"
      and rn = "([], False)" and prog = "[ExitCmd 7]" and st = "([], True)" and out = "[]"
      and as = "[]" and ps = "[]", THEN conjunct2, THEN conjunct2, THEN conjunct2, THEN conjunct2]
  by (simp add: toyShell_def toyParse_def toyWorld_def)

section \<open>Further concrete runs\<close>

text \<open>
  The interactive loop on the input \<open>toyTty\<close>: the incomplete line only draws the prompt
  \<open>> \<close>; in the next batch the first statement fails and the second still runs; the
  batch after that exits on its first statement, so its second statement and the last
  batch are never run, and the result is the error of the last statement run.
\<close>

lemma runInteractive_example:
  "runInteractive toyShell toyTty 0 toyWorld =
     (Some (ExitStatus 3),
      \<lparr>store = (\<lambda>a. ([], False))(0 := ([(''X'', ''1'')], True)), nextAddr = 0,
       trace =
         [EvStdout ''$ '',
          EvRead, EvIncomplete True, EvStdout ''> '',
          EvRead, EvIncomplete False,
          EvRun 0 [Fail ''boom''] (Some (Ordinary ''boom'')), EvExited 0 False,
          EvRun 0 [Assign ''X'' ''1''] None, EvExited 0 False, EvStdout ''$ '',
          EvRead, EvIncomplete False,
          EvRun 0 [ExitCmd 3] (Some (ExitStatus 3)), EvExited 0 True]\<rparr>)"
  by (simp add: runInteractive_def fn_def emit_def toyTty_def toy_defs)

text \<open>
  main.go on two concurrent scripts, one exiting with status 3 and one with a syntax
  error: both report, the composite error has one line per failure, and the process
  exits with status 1, not 3.
\<close>

lemma main_composite_example:
  "map_option (\<lambda>(code, w). (code, trace w))
     (main toyShell toyEnv \<lparr>cFlag = None, aFlags = [''exit3.sh,bad.sh''], args = []\<rparr>
        [0, 0, 0, 0, 0, 0, 1, 1, 1, 1, 2, 2, 2] toyWorld) =
   Some (1,
     [EvNew 0, EvNew 1, EvOpen ''exit3.sh'', EvParse ''exit3.sh'', EvReset 1,
      EvRun 1 [ExitCmd 3] (Some (ExitStatus 3)),
      EvNew 2, EvOpen ''bad.sh'', EvParse ''bad.sh'',
      EvStderr (''exit status'' @ [CHR 0x0A] @ ''bad.sh: syntax error'' @ [CHR 0x0A, CHR 0x0A])])"
  by (simp add: main_def host_defs toy_defs exec_append exec_returned)

end
